theory Spec2Isabelle
  imports Main "HOL-Library.AList"
begin

section \<open>JavaScript values, Map objects and the heap\<close>

text \<open>
  \<^verbatim>\<open>MultiLevelMap\<close> (the second document of \<^verbatim>\<open>src/src/Utils.js\<close>) keeps a tree of
  JavaScript \<^verbatim>\<open>Map\<close> objects. A \<^verbatim>\<open>Map\<close> is a mutable object that is held by reference:
  the value stored under a key may be a \<^verbatim>\<open>Map\<close> that the caller built, that \<^verbatim>\<open>get\<close> handed
  out, or the root itself (every \<^verbatim>\<open>set\<close> returns the \<^verbatim>\<open>Map\<close> it wrote to). The model
  therefore has an explicit heap of \<^verbatim>\<open>Map\<close> objects and values that refer to them by
  address.

  A value is either a reference to a \<^verbatim>\<open>Map\<close> instance (exactly the values for which
  \<^verbatim>\<open>instanceof Map\<close> holds) or anything else: \<^verbatim>\<open>undefined\<close>, \<^verbatim>\<open>null\<close>, a boolean, a
  number, a string, a symbol, a \<^verbatim>\<open>BigInt\<close>, or an object that is not a \<^verbatim>\<open>Map\<close>. Numbers
  are the integer-valued ones; equal values of the datatype are the values that \<^verbatim>\<open>Map\<close>
  treats as the same key.

  The code looks into a key or a value only when it prints keys in an error message. An
  object that is not a \<^verbatim>\<open>Map\<close> is therefore known by its identity and by the two facts
  that decide whether it can be printed: whether its conversion to a string succeeds (it
  does not for \<^verbatim>\<open>Object.create(null)\<close>), and whether \<^verbatim>\<open>JSON.stringify\<close> accepts it (it does
  not for an object that contains itself).
\<close>

type_synonym addr = nat

datatype prim =
    JSUndefined | JSNull | JSBool bool | JSNumber int | JSString string
  | JSSymbol nat | JSBigInt int
  | JSObject nat bool bool

datatype jsval = Prim prim | MapRef addr

text \<open>
  The contents of one \<^verbatim>\<open>Map\<close>: its entries in insertion order. The heap is the list of
  all \<^verbatim>\<open>Map\<close> objects allocated so far; an address is an index into it.
\<close>

type_synonym jsmap = "(jsval \<times> jsval) list"

type_synonym heap = "jsmap list"

text \<open>
  Every \<^verbatim>\<open>throw new Error(...)\<close> of the source is a value of this type. The argument
  checks of the public methods throw a fixed message; the resolver throws a message built
  from the offending \<^verbatim>\<open>key\<close> and from \<^verbatim>\<open>JSON.stringify(keys)\<close>, recorded here as the two
  values that the message is built from. Building that message can itself throw: that is
  the \<^verbatim>\<open>TypeError\<close>.
\<close>

datatype error = ArgumentError string | ConflictError jsval "jsval list" | TypeError

subsection \<open>Printing values\<close>

text \<open>
  \<^verbatim>\<open>`${key}`\<close> converts the key to a string. The conversion throws a \<^verbatim>\<open>TypeError\<close> for a
  symbol and for an object that has no usable \<^verbatim>\<open>toString\<close>; a \<^verbatim>\<open>Map\<close> prints as
  \<^verbatim>\<open>[object Map]\<close>.
\<close>

fun ToString_ok :: "jsval \<Rightarrow> bool" where
  "ToString_ok (Prim (JSSymbol s)) = False"
| "ToString_ok (Prim (JSObject i str_ok json_ok)) = str_ok"
| "ToString_ok v = True"

text \<open>
  \<^verbatim>\<open>JSON.stringify(keys)\<close> throws a \<^verbatim>\<open>TypeError\<close> when the array holds a \<^verbatim>\<open>BigInt\<close> or an
  object that it cannot serialise; it prints \<^verbatim>\<open>undefined\<close> and a symbol as \<^verbatim>\<open>null\<close> and a
  \<^verbatim>\<open>Map\<close> as \<^verbatim>\<open>{}\<close>.
\<close>

fun JSON_value_ok :: "jsval \<Rightarrow> bool" where
  "JSON_value_ok (Prim (JSBigInt n)) = False"
| "JSON_value_ok (Prim (JSObject i str_ok json_ok)) = json_ok"
| "JSON_value_ok v = True"

definition JSON_stringify_ok :: "jsval list \<Rightarrow> bool" where
  "JSON_stringify_ok keys = list_all JSON_value_ok keys"

subsection \<open>The methods of \<^verbatim>\<open>Map\<close> that the source calls\<close>

definition Map_get :: "jsmap \<Rightarrow> jsval \<Rightarrow> jsval" where
  "Map_get m k = (case map_of m k of None \<Rightarrow> Prim JSUndefined | Some v \<Rightarrow> v)"

definition Map_has :: "jsmap \<Rightarrow> jsval \<Rightarrow> bool" where
  "Map_has m k = (map_of m k \<noteq> None)"

text \<open>An existing key keeps its position, a new key goes to the end.\<close>

definition Map_set :: "jsmap \<Rightarrow> jsval \<Rightarrow> jsval \<Rightarrow> jsmap" where
  "Map_set m k v = AList.update k v m"

text \<open>\<^verbatim>\<open>Map.prototype.delete\<close> returns whether the key was present.\<close>

definition Map_delete :: "jsmap \<Rightarrow> jsval \<Rightarrow> jsmap \<times> bool" where
  "Map_delete m k = (AList.delete k m, Map_has m k)"

definition Map_clear :: "jsmap \<Rightarrow> jsmap" where
  "Map_clear m = []"

definition Map_size :: "jsmap \<Rightarrow> nat" where
  "Map_size m = length m"

text \<open>An iterator is modelled by the finite sequence of items it yields before it is done.\<close>

definition Map_entries :: "jsmap \<Rightarrow> (jsval \<times> jsval) list" where
  "Map_entries m = m"

definition Map_keys :: "jsmap \<Rightarrow> jsval list" where
  "Map_keys m = map fst m"

definition Map_values :: "jsmap \<Rightarrow> jsval list" where
  "Map_values m = map snd m"

subsection \<open>Heap access\<close>

definition deref :: "heap \<Rightarrow> addr \<Rightarrow> jsmap" where
  "deref h a = (if a < length h then h ! a else [])"

definition store :: "heap \<Rightarrow> addr \<Rightarrow> jsmap \<Rightarrow> heap" where
  "store h a m = h[a := m]"

text \<open>\<^verbatim>\<open>new Map()\<close>: a fresh, empty object at the next address.\<close>

definition new_Map :: "heap \<Rightarrow> heap \<times> addr" where
  "new_Map h = (h @ [[]], length h)"

text \<open>
  The heaps that JavaScript can build: every stored reference points to an allocated
  \<^verbatim>\<open>Map\<close>, and a \<^verbatim>\<open>Map\<close> holds each key once.
\<close>

definition valid_val :: "heap \<Rightarrow> jsval \<Rightarrow> bool" where
  "valid_val h v = (case v of MapRef a \<Rightarrow> a < length h | Prim p \<Rightarrow> True)"

definition wf_heap :: "heap \<Rightarrow> bool" where
  "wf_heap h = list_all (\<lambda>m. distinct (map fst m) \<and> list_all (\<lambda>e. valid_val h (snd e)) m) h"

section \<open>The resolver \<^verbatim>\<open>s_FIND_CHILD_MAP\<close>\<close>

text \<open>
  What the statement \<^verbatim>\<open>throw new Error(`Could not create ... '${key}' in keys:
  ${JSON.stringify(keys)}.`)\<close> throws: the template is evaluated first, from left to right,
  and only when both conversions succeed is the \<^verbatim>\<open>Error\<close> built.
\<close>

definition conflict_error :: "jsval \<Rightarrow> jsval list \<Rightarrow> error" where
  "conflict_error key keys =
     (if \<not> ToString_ok key then TypeError
      else if \<not> JSON_stringify_ok keys then TypeError
      else ConflictError key keys)"

text \<open>
  The loop over \<^verbatim>\<open>keys\<close>, by recursion on the keys still to be followed. \<^verbatim>\<open>keys\<close> is the
  whole array (the error message prints it), \<^verbatim>\<open>childMap\<close> the address of the current map.
  The result is the heap when the function returns or throws, and either the error thrown
  or the returned value, \<open>None\<close> for \<^verbatim>\<open>null\<close>.
\<close>

fun find_loop :: "jsval list \<Rightarrow> jsval list \<Rightarrow> bool \<Rightarrow> addr \<Rightarrow> heap \<Rightarrow> heap \<times> (error + addr option)" where
  "find_loop keys [] create childMap h = (h, Inr (Some childMap))"
| "find_loop keys (key # rest) create childMap h =
     (case Map_get (deref h childMap) key of
        MapRef nextMap \<Rightarrow> find_loop keys rest create nextMap h
      | Prim p \<Rightarrow>
          if create then
            if Map_has (deref h childMap) key then (h, Inl (conflict_error key keys))
            else (case new_Map h of (h1, newMap) \<Rightarrow>
                    find_loop keys rest create newMap
                      (store h1 childMap (Map_set (deref h1 childMap) key (MapRef newMap))))
          else (h, Inr None))"

definition s_FIND_CHILD_MAP :: "jsval list \<Rightarrow> addr \<Rightarrow> bool \<Rightarrow> heap \<Rightarrow> heap \<times> (error + addr option)" where
  "s_FIND_CHILD_MAP keys m create h = find_loop keys keys create m h"

definition s_EMPTY_ITERATOR :: "'a list" where
  "s_EMPTY_ITERATOR = []"

section \<open>The class \<^verbatim>\<open>MultiLevelMap\<close>\<close>

text \<open>
  The object has one field, frozen by the constructor. Every method takes the object, the
  argument array and the heap, and returns the heap together with the error thrown or the
  value returned.
\<close>

record MultiLevelMap =
  internalMap :: addr

definition constructor :: "heap \<Rightarrow> heap \<times> MultiLevelMap" where
  "constructor h = (case new_Map h of (h1, a) \<Rightarrow> (h1, \<lparr>internalMap = a\<rparr>))"

definition MultiLevelMap_clear :: "MultiLevelMap \<Rightarrow> jsval list \<Rightarrow> heap \<Rightarrow> heap \<times> (error + unit)" where
  "MultiLevelMap_clear this keys h =
     (if length keys = 0 then
        (store h (internalMap this) (Map_clear (deref h (internalMap this))), Inr ())
      else
        (case s_FIND_CHILD_MAP keys (internalMap this) False h of
           (h1, Inl e) \<Rightarrow> (h1, Inl e)
         | (h1, Inr None) \<Rightarrow> (h1, Inr ())
         | (h1, Inr (Some m)) \<Rightarrow> (store h1 m (Map_clear (deref h1 m)), Inr ())))"

definition MultiLevelMap_delete :: "MultiLevelMap \<Rightarrow> jsval list \<Rightarrow> heap \<Rightarrow> heap \<times> (error + bool)" where
  "MultiLevelMap_delete this keys h =
     (let keysLength = length keys in
      if keysLength = 0 then (h, Inl (ArgumentError ''delete - no keys specified.''))
      else if keysLength = 1 then
        (case Map_delete (deref h (internalMap this)) (keys ! 0) of
           (m', returnValue) \<Rightarrow> (store h (internalMap this) m', Inr returnValue))
      else
        (let mapKeys = take (keysLength - 1) keys in
         case s_FIND_CHILD_MAP mapKeys (internalMap this) False h of
           (h1, Inl e) \<Rightarrow> (h1, Inl e)
         | (h1, Inr None) \<Rightarrow> (h1, Inr False)
         | (h1, Inr (Some m)) \<Rightarrow>
             (let indexKey = keys ! (keysLength - 1) in
              case Map_delete (deref h1 m) indexKey of
                (m', returnValue) \<Rightarrow> (store h1 m m', Inr returnValue))))"

definition MultiLevelMap_entries ::
  "MultiLevelMap \<Rightarrow> jsval list \<Rightarrow> heap \<Rightarrow> heap \<times> (error + (jsval \<times> jsval) list)" where
  "MultiLevelMap_entries this keys h =
     (if length keys = 0 then (h, Inr (Map_entries (deref h (internalMap this))))
      else
        (case s_FIND_CHILD_MAP keys (internalMap this) False h of
           (h1, Inl e) \<Rightarrow> (h1, Inl e)
         | (h1, Inr None) \<Rightarrow> (h1, Inr s_EMPTY_ITERATOR)
         | (h1, Inr (Some m)) \<Rightarrow> (h1, Inr (Map_entries (deref h1 m)))))"

definition MultiLevelMap_get :: "MultiLevelMap \<Rightarrow> jsval list \<Rightarrow> heap \<Rightarrow> heap \<times> (error + jsval)" where
  "MultiLevelMap_get this keys h =
     (let keysLength = length keys in
      if keysLength = 0 then (h, Inl (ArgumentError ''get - no keys specified.''))
      else if keysLength = 1 then (h, Inr (Map_get (deref h (internalMap this)) (keys ! 0)))
      else
        (let mapKeys = take (keysLength - 1) keys in
         case s_FIND_CHILD_MAP mapKeys (internalMap this) False h of
           (h1, Inl e) \<Rightarrow> (h1, Inl e)
         | (h1, Inr None) \<Rightarrow> (h1, Inr (Prim JSUndefined))
         | (h1, Inr (Some m)) \<Rightarrow>
             (let indexKey = keys ! (keysLength - 1) in (h1, Inr (Map_get (deref h1 m) indexKey)))))"

definition MultiLevelMap_has :: "MultiLevelMap \<Rightarrow> jsval list \<Rightarrow> heap \<Rightarrow> heap \<times> (error + bool)" where
  "MultiLevelMap_has this keys h =
     (let keysLength = length keys in
      if keysLength = 0 then (h, Inl (ArgumentError ''has - no keys specified.''))
      else if keysLength = 1 then (h, Inr (Map_has (deref h (internalMap this)) (keys ! 0)))
      else
        (let mapKeys = take (keysLength - 1) keys in
         case s_FIND_CHILD_MAP mapKeys (internalMap this) False h of
           (h1, Inl e) \<Rightarrow> (h1, Inl e)
         | (h1, Inr None) \<Rightarrow> (h1, Inr False)
         | (h1, Inr (Some m)) \<Rightarrow>
             (let indexKey = keys ! (keysLength - 1) in (h1, Inr (Map_has (deref h1 m) indexKey)))))"

text \<open>
  In \<^verbatim>\<open>isMap\<close> the test \<^verbatim>\<open>map instanceof Map\<close> is true of every non-null result of the
  resolver, which only ever returns \<^verbatim>\<open>Map\<close> objects.
\<close>

definition MultiLevelMap_isMap :: "MultiLevelMap \<Rightarrow> jsval list \<Rightarrow> heap \<Rightarrow> heap \<times> (error + bool)" where
  "MultiLevelMap_isMap this keys h =
     (if length keys = 0 then (h, Inr True)
      else
        (case s_FIND_CHILD_MAP keys (internalMap this) False h of
           (h1, Inl e) \<Rightarrow> (h1, Inl e)
         | (h1, Inr None) \<Rightarrow> (h1, Inr False)
         | (h1, Inr (Some m)) \<Rightarrow> (h1, Inr True)))"

definition MultiLevelMap_keys :: "MultiLevelMap \<Rightarrow> jsval list \<Rightarrow> heap \<Rightarrow> heap \<times> (error + jsval list)" where
  "MultiLevelMap_keys this keys h =
     (if length keys = 0 then (h, Inr (Map_keys (deref h (internalMap this))))
      else
        (case s_FIND_CHILD_MAP keys (internalMap this) False h of
           (h1, Inl e) \<Rightarrow> (h1, Inl e)
         | (h1, Inr None) \<Rightarrow> (h1, Inr s_EMPTY_ITERATOR)
         | (h1, Inr (Some m)) \<Rightarrow> (h1, Inr (Map_keys (deref h1 m)))))"

text \<open>
  \<^verbatim>\<open>Map.prototype.set\<close> returns the \<^verbatim>\<open>Map\<close> it was called on, so \<^verbatim>\<open>returnValue\<close> is a
  reference to the map written to; it stays \<^verbatim>\<open>undefined\<close> when the resolver returns
  \<^verbatim>\<open>null\<close>.
\<close>

definition MultiLevelMap_set :: "MultiLevelMap \<Rightarrow> jsval list \<Rightarrow> heap \<Rightarrow> heap \<times> (error + jsval)" where
  "MultiLevelMap_set this params h =
     (let keysLength = length params in
      if keysLength = 0 then (h, Inl (ArgumentError ''set - no params specified; needs 2 minimum.''))
      else if keysLength = 1 then
        (h, Inl (ArgumentError ''set - only 1 param specified; needs 2 minimum.''))
      else if keysLength = 2 then
        (store h (internalMap this) (Map_set (deref h (internalMap this)) (params ! 0) (params ! 1)),
         Inr (MapRef (internalMap this)))
      else
        (let mapKeys = take (keysLength - 2) params in
         case s_FIND_CHILD_MAP mapKeys (internalMap this) True h of
           (h1, Inl e) \<Rightarrow> (h1, Inl e)
         | (h1, Inr None) \<Rightarrow> (h1, Inr (Prim JSUndefined))
         | (h1, Inr (Some m)) \<Rightarrow>
             (let indexKey = params ! (keysLength - 2); value = params ! (keysLength - 1) in
              (store h1 m (Map_set (deref h1 m) indexKey value), Inr (MapRef m)))))"

definition MultiLevelMap_size :: "MultiLevelMap \<Rightarrow> jsval list \<Rightarrow> heap \<Rightarrow> heap \<times> (error + nat)" where
  "MultiLevelMap_size this keys h =
     (if length keys = 0 then (h, Inr (Map_size (deref h (internalMap this))))
      else
        (case s_FIND_CHILD_MAP keys (internalMap this) False h of
           (h1, Inl e) \<Rightarrow> (h1, Inl e)
         | (h1, Inr None) \<Rightarrow> (h1, Inr 0)
         | (h1, Inr (Some m)) \<Rightarrow> (h1, Inr (Map_size (deref h1 m)))))"

definition MultiLevelMap_values :: "MultiLevelMap \<Rightarrow> jsval list \<Rightarrow> heap \<Rightarrow> heap \<times> (error + jsval list)" where
  "MultiLevelMap_values this keys h =
     (if length keys = 0 then (h, Inr (Map_values (deref h (internalMap this))))
      else
        (case s_FIND_CHILD_MAP keys (internalMap this) False h of
           (h1, Inl e) \<Rightarrow> (h1, Inl e)
         | (h1, Inr None) \<Rightarrow> (h1, Inr s_EMPTY_ITERATOR)
         | (h1, Inr (Some m)) \<Rightarrow> (h1, Inr (Map_values (deref h1 m)))))"

section \<open>Path resolution as a function of the heap\<close>

text \<open>
  What the resolver returns when it does not create: the map reached from \<open>a\<close> by following
  the keys, \<open>None\<close> as soon as a key is absent or holds something that is not a
  \<^verbatim>\<open>Map\<close>. Lemma \<open>find_loop_lookup\<close> below shows that this is the result of
  \<^verbatim>\<open>s_FIND_CHILD_MAP(keys, map)\<close>.
\<close>

fun lookup :: "heap \<Rightarrow> addr \<Rightarrow> jsval list \<Rightarrow> addr option" where
  "lookup h a [] = Some a"
| "lookup h a (k # ks) =
     (case Map_get (deref h a) k of MapRef b \<Rightarrow> lookup h b ks | Prim p \<Rightarrow> None)"

text \<open>The map that a key path resolves to in a container, read off the resolver.\<close>

definition resolves_to :: "MultiLevelMap \<Rightarrow> jsval list \<Rightarrow> heap \<Rightarrow> addr option" where
  "resolves_to this keys h =
     (case snd (s_FIND_CHILD_MAP keys (internalMap this) False h) of Inl e \<Rightarrow> None | Inr r \<Rightarrow> r)"

text \<open>
  A key path revisits its target when it resolves to a map that a proper prefix of
  the path resolves to as well: the path runs through a cycle of references. This never
  happens when the nested maps form a tree.
\<close>

definition path_revisits :: "MultiLevelMap \<Rightarrow> jsval list \<Rightarrow> heap \<Rightarrow> bool" where
  "path_revisits this keys h =
     (resolves_to this keys h \<noteq> None \<and>
      list_ex (\<lambda>i. resolves_to this (take i keys) h = resolves_to this keys h) [0..<length keys])"

text \<open>
  A key path leaves its target through the key \<open>k\<close> when it resolves to a map that a
  proper prefix of the path resolves to as well, and goes on from that prefix with the key
  \<open>k\<close>: the entry \<open>k\<close> of the target is then one of the entries that the path follows.
\<close>

definition leaves_through :: "MultiLevelMap \<Rightarrow> jsval list \<Rightarrow> jsval \<Rightarrow> heap \<Rightarrow> bool" where
  "leaves_through this keys k h =
     (resolves_to this keys h \<noteq> None \<and>
      list_ex (\<lambda>i. resolves_to this (take i keys) h = resolves_to this keys h \<and> keys ! i = k)
        [0..<length keys])"

section \<open>The containers of the examples\<close>

abbreviation str :: "string \<Rightarrow> jsval" where
  "str s \<equiv> Prim (JSString s)"

abbreviation num :: "int \<Rightarrow> jsval" where
  "num i \<equiv> Prim (JSNumber i)"

text \<open>\<^verbatim>\<open>const C = new MultiLevelMap()\<close> in a program that has no other \<^verbatim>\<open>Map\<close>.\<close>

definition fresh_heap :: heap where
  "fresh_heap = fst (constructor [])"

definition fresh :: MultiLevelMap where
  "fresh = snd (constructor [])"

text \<open>\<^verbatim>\<open>C.set('a', 1); C.set('b', 'c', 2)\<close>\<close>

definition scoped_heap :: heap where
  "scoped_heap =
     fst (MultiLevelMap_set fresh [str ''b'', str ''c'', num 2]
       (fst (MultiLevelMap_set fresh [str ''a'', num 1] fresh_heap)))"

text \<open>\<^verbatim>\<open>C.set('key1', 1)\<close>\<close>

definition leaf_heap :: heap where
  "leaf_heap = fst (MultiLevelMap_set fresh [str ''key1'', num 1] fresh_heap)"

text \<open>\<^verbatim>\<open>C.set('x', 'y', 1)\<close>\<close>

definition nested_heap :: heap where
  "nested_heap = fst (MultiLevelMap_set fresh [str ''x'', str ''y'', num 1] fresh_heap)"

text \<open>
  \<^verbatim>\<open>C.set('a', C.set('a', 0))\<close>: the inner call returns the root map, the outer call
  stores it under \<^verbatim>\<open>'a'\<close> of the root, so that the root contains itself.
\<close>

definition cyclic_heap :: heap where
  "cyclic_heap =
     (case MultiLevelMap_set fresh [str ''a'', num 0] fresh_heap of
        (h1, Inr root) \<Rightarrow> fst (MultiLevelMap_set fresh [str ''a'', root] h1)
      | (h1, Inl e) \<Rightarrow> h1)"

text \<open>\<^verbatim>\<open>const C = new MultiLevelMap(); const m = new Map()\<close>: the caller's map is at address 1.\<close>

definition user_heap :: heap where
  "user_heap = fst (new_Map fresh_heap)"

text \<open>
  \<^verbatim>\<open>C.set('k', 'self', C.set('k', 'self', 0))\<close>: the inner call creates the nested map under
  \<^verbatim>\<open>'k'\<close> and returns it, the outer call stores that map under its own key \<^verbatim>\<open>'self'\<close>.
\<close>

definition selfref_heap :: heap where
  "selfref_heap =
     (case MultiLevelMap_set fresh [str ''k'', str ''self'', num 0] fresh_heap of
        (h1, Inr nested) \<Rightarrow> fst (MultiLevelMap_set fresh [str ''k'', str ''self'', nested] h1)
      | (h1, Inl e) \<Rightarrow> h1)"

text \<open>
  \<^verbatim>\<open>const o = {}; o.self = o; C.set(o, 1)\<close>: the key is an object that contains itself. It
  converts to the string \<^verbatim>\<open>[object Object]\<close>, and \<^verbatim>\<open>JSON.stringify\<close> refuses it.
\<close>

definition circular :: jsval where
  "circular = Prim (JSObject 0 True False)"

definition circular_heap :: heap where
  "circular_heap = fst (MultiLevelMap_set fresh [circular, num 1] fresh_heap)"

text \<open>\<^verbatim>\<open>const s = Symbol(); C.set(s, 1)\<close>\<close>

definition symbol_heap :: heap where
  "symbol_heap = fst (MultiLevelMap_set fresh [Prim (JSSymbol 0), num 1] fresh_heap)"

section \<open>Basic facts about the heap and the resolver\<close>

lemma length_store: "length (store h a m) = length h"
  by (simp add: store_def)

lemma deref_store: "deref (store h a m) b = (if b = a \<and> a < length h then m else deref h b)"
  by (auto simp: deref_def store_def)

lemma deref_new: "deref (h @ [[]]) b = deref h b"
  by (auto simp: deref_def nth_append less_Suc_eq)

lemma Map_get_set: "Map_get (Map_set m k v) k' = (if k' = k then v else Map_get m k')"
  by (simp add: Map_get_def Map_set_def update_conv')

lemma Map_has_set: "Map_has (Map_set m k v) k' = (k' = k \<or> Map_has m k')"
  by (simp add: Map_has_def Map_set_def update_conv')

lemma Map_get_Nil: "Map_get [] k = Prim JSUndefined"
  by (simp add: Map_get_def)

lemma Map_has_Nil: "\<not> Map_has [] k"
  by (simp add: Map_has_def)

lemma Map_get_MapRef_has: "Map_get m k = MapRef b \<Longrightarrow> Map_has m k"
  by (auto simp: Map_get_def Map_has_def split: option.splits)

lemma Map_get_delete:
  "Map_get (AList.delete kf m) k = (if k = kf then Prim JSUndefined else Map_get m k)"
  by (simp add: Map_get_def delete_conv')

lemma conflict_error_eq:
  "conflict_error k ks = ConflictError key keys \<Longrightarrow> k = key \<and> ks = keys"
  by (simp add: conflict_error_def split: if_splits)

lemma conflict_error_not_argument: "conflict_error k ks \<noteq> ArgumentError msg"
  by (simp add: conflict_error_def)

lemma conflict_error_printable:
  "ToString_ok k \<Longrightarrow> JSON_stringify_ok ks \<Longrightarrow> conflict_error k ks = ConflictError k ks"
  by (simp add: conflict_error_def)

lemma find_loop_lookup: "find_loop ks rest False a h = (h, Inr (lookup h a rest))"
  by (induction rest arbitrary: a) (auto split: jsval.splits)

lemma s_FIND_CHILD_MAP_lookup: "s_FIND_CHILD_MAP keys a False h = (h, Inr (lookup h a keys))"
  by (simp add: s_FIND_CHILD_MAP_def find_loop_lookup)

lemma resolves_to_lookup: "resolves_to this keys h = lookup h (internalMap this) keys"
  by (simp add: resolves_to_def s_FIND_CHILD_MAP_lookup)

lemma lookup_append:
  "lookup h a (xs @ ys) = (case lookup h a xs of None \<Rightarrow> None | Some m \<Rightarrow> lookup h m ys)"
  by (induction xs arbitrary: a) (auto split: jsval.splits)

lemma lookup_take: "lookup h a ks = Some t \<Longrightarrow> \<exists>m. lookup h a (take i ks) = Some m"
  using lookup_append [of h a "take i ks" "drop i ks"] by (auto split: option.splits)

lemma wf_heap_valid:
  assumes "wf_heap h" and "Map_get (deref h a) k = MapRef b"
  shows "b < length h"
proof -
  from assms(2) have sm: "map_of (deref h a) k = Some (MapRef b)"
    by (auto simp: Map_get_def split: option.splits)
  then have ne: "deref h a \<noteq> []" by auto
  then have a: "a < length h" and d: "deref h a = h ! a"
    by (auto simp: deref_def split: if_splits)
  from sm have "(k, MapRef b) \<in> set (h ! a)" using d by (auto dest: map_of_SomeD)
  moreover have "h ! a \<in> set h" using a by simp
  ultimately have "valid_val h (MapRef b)"
    using assms(1) by (fastforce simp: wf_heap_def list_all_iff)
  then show ?thesis by (simp add: valid_val_def)
qed

lemma lookup_valid: "wf_heap h \<Longrightarrow> a < length h \<Longrightarrow> lookup h a ks = Some t \<Longrightarrow> t < length h"
  by (induction ks arbitrary: a) (auto split: jsval.splits dest: wf_heap_valid)

lemma lookup_frame:
  "(\<forall>i<length ks. \<forall>m. lookup h a (take i ks) = Some m \<longrightarrow> deref h' m = deref h m)
   \<Longrightarrow> lookup h' a ks = lookup h a ks"
proof (induction ks arbitrary: a)
  case Nil
  then show ?case by simp
next
  case (Cons k ks)
  from Cons.prems have a: "deref h' a = deref h a" by fastforce
  show ?case
  proof (cases "Map_get (deref h a) k")
    case (Prim p)
    then show ?thesis using a by simp
  next
    case (MapRef b)
    have "\<forall>i<length ks. \<forall>m. lookup h b (take i ks) = Some m \<longrightarrow> deref h' m = deref h m"
    proof (intro allI impI)
      fix i m assume i: "i < length ks" and m: "lookup h b (take i ks) = Some m"
      have "lookup h a (take (Suc i) (k # ks)) = Some m" using m MapRef by simp
      moreover have "Suc i < length (k # ks)" using i by simp
      ultimately show "deref h' m = deref h m" using Cons.prems by blast
    qed
    then have "lookup h' b ks = lookup h b ks" by (rule Cons.IH)
    then show ?thesis using a MapRef by simp
  qed
qed

lemma lookup_extend:
  "(\<forall>x k b. Map_get (deref h x) k = MapRef b \<longrightarrow> Map_get (deref h' x) k = MapRef b)
   \<Longrightarrow> lookup h a ks = Some t \<Longrightarrow> lookup h' a ks = Some t"
  by (induction ks arbitrary: a) (auto split: jsval.splits)

lemma find_loop_resolved:
  "lookup h a rest = Some t \<Longrightarrow> find_loop ks rest cr a h = (h, Inr (Some t))"
  by (induction rest arbitrary: a) (auto split: jsval.splits)

lemma find_loop_append:
  "lookup h a pre = Some m \<Longrightarrow> find_loop ks (pre @ rest) cr a h = find_loop ks rest cr m h"
  by (induction pre arbitrary: a) (auto split: jsval.splits)

lemma lookup_None_decomp:
  "lookup h a rest = None \<Longrightarrow>
   \<exists>pre k post m p. rest = pre @ k # post \<and> lookup h a pre = Some m \<and> Map_get (deref h m) k = Prim p"
proof (induction rest arbitrary: a)
  case Nil
  then show ?case by simp
next
  case (Cons k rest)
  show ?case
  proof (cases "Map_get (deref h a) k")
    case (Prim p)
    then have "k # rest = [] @ k # rest \<and> lookup h a [] = Some a \<and> Map_get (deref h a) k = Prim p"
      by simp
    then show ?thesis by blast
  next
    case (MapRef b)
    then have "lookup h b rest = None" using Cons.prems by simp
    from Cons.IH [OF this] obtain pre k' post m p where
      "rest = pre @ k' # post" "lookup h b pre = Some m" "Map_get (deref h m) k' = Prim p"
      by blast
    then have "k # rest = (k # pre) @ k' # post \<and> lookup h a (k # pre) = Some m
        \<and> Map_get (deref h m) k' = Prim p"
      using MapRef by simp
    then show ?thesis by blast
  qed
qed

subsection \<open>Create mode\<close>

text \<open>
  Starting from an empty map, create mode allocates one map per key and cannot throw.
\<close>

lemma find_loop_fresh:
  "a < length h \<Longrightarrow> deref h a = [] \<Longrightarrow>
   \<exists>h1 t. find_loop ks post True a h = (h1, Inr (Some t))
      \<and> length h1 = length h + length post
      \<and> t = (if post = [] then a else length h + length post - 1)
      \<and> (\<forall>x. x < length h \<and> x \<noteq> a \<longrightarrow> deref h1 x = deref h x)
      \<and> deref h1 t = []
      \<and> (\<forall>h2. (\<forall>x. x \<noteq> t \<longrightarrow> deref h2 x = deref h1 x) \<longrightarrow>
            (\<forall>i\<le>length post.
               lookup h2 a (take i post) = Some (if i = 0 then a else length h + i - 1)))"
proof (induction post arbitrary: a h)
  case Nil
  then show ?case by simp
next
  case (Cons k post)
  define n where "n = length h"
  define h' where "h' = store (h @ [[]]) a (Map_set (deref (h @ [[]]) a) k (MapRef n))"
  have len': "length h' = Suc n" by (simp add: h'_def n_def length_store)
  have a_n: "a < n" using Cons.prems(1) by (simp add: n_def)
  have da: "deref h' a = [(k, MapRef n)]"
    using Cons.prems a_n by (simp add: h'_def deref_store deref_new Map_set_def n_def)
  have dx: "deref h' x = deref h x" if "x \<noteq> a" for x
    using that by (simp add: h'_def deref_store deref_new)
  have dn: "deref h' n = []"
    using a_n dx [of n] by (simp add: deref_def n_def)
  have step: "find_loop ks (k # post) True a h = find_loop ks post True n h'"
    using Cons.prems by (simp add: Map_get_Nil Map_has_Nil new_Map_def h'_def n_def)
  have "n < length h'" using len' by simp
  from Cons.IH [OF this dn] obtain h1 t where
    fl: "find_loop ks post True n h' = (h1, Inr (Some t))" and
    l1: "length h1 = length h' + length post" and
    t: "t = (if post = [] then n else length h' + length post - 1)" and
    fr: "\<forall>x. x < length h' \<and> x \<noteq> n \<longrightarrow> deref h1 x = deref h' x" and
    e: "deref h1 t = []" and
    lk: "\<forall>h2. (\<forall>x. x \<noteq> t \<longrightarrow> deref h2 x = deref h1 x) \<longrightarrow>
           (\<forall>i\<le>length post.
              lookup h2 n (take i post) = Some (if i = 0 then n else length h' + i - 1))"
    by blast
  have t': "t = n + length post" using t len' by (cases post) auto
  have "lookup h2 a (take i (k # post)) = Some (if i = 0 then a else length h + i - 1)"
    if h2: "\<forall>x. x \<noteq> t \<longrightarrow> deref h2 x = deref h1 x" and i: "i \<le> length (k # post)" for h2 i
  proof (cases i)
    case 0
    then show ?thesis by simp
  next
    case (Suc j)
    have "a \<noteq> t" using a_n t' by simp
    then have "deref h2 a = deref h1 a" using h2 by simp
    also have "\<dots> = deref h' a" using fr a_n len' by simp
    finally have g: "Map_get (deref h2 a) k = MapRef n" using da by (simp add: Map_get_def)
    have "j \<le> length post" using i Suc by simp
    then have "lookup h2 n (take j post) = Some (if j = 0 then n else length h' + j - 1)"
      using lk h2 by blast
    then have "lookup h2 n (take j post) = Some (n + j)" using len' by (cases j) auto
    then show ?thesis using g Suc by (simp add: n_def)
  qed
  moreover have "\<forall>x. x < length h \<and> x \<noteq> a \<longrightarrow> deref h1 x = deref h x"
    using fr dx len' by (simp add: n_def)
  moreover have "length h1 = length h + length (k # post)" using l1 len' by (simp add: n_def)
  moreover have "t = (if k # post = [] then a else length h + length (k # post) - 1)"
    using t' by (simp add: n_def)
  ultimately show ?case using step fl e by simp
qed

text \<open>
  The two ways in which create mode leaves the existing maps: it throws at a key that
  holds a value, or it creates a chain of maps below a key that is absent.
\<close>

lemma find_loop_conflict:
  assumes "lookup h a pre = Some m" "Map_get (deref h m) k = Prim p" "Map_has (deref h m) k"
  shows "find_loop ks (pre @ k # post) True a h = (h, Inl (conflict_error k ks))"
  using assms by (simp add: find_loop_append)

lemma find_loop_creates:
  assumes pre: "lookup h a pre = Some m" and nh: "\<not> Map_has (deref h m) k" and m: "m < length h"
  shows "\<exists>h1 t. find_loop ks (pre @ k # post) True a h = (h1, Inr (Some t))
      \<and> length h1 = length h + Suc (length post)
      \<and> t = length h + length post
      \<and> (\<forall>x. x < length h \<and> x \<noteq> m \<longrightarrow> deref h1 x = deref h x)
      \<and> deref h1 m = Map_set (deref h m) k (MapRef (length h))
      \<and> deref h1 t = []
      \<and> (\<forall>h2. (\<forall>x. x \<noteq> t \<longrightarrow> deref h2 x = deref h1 x) \<longrightarrow>
            (\<forall>ks' t'. lookup h a ks' = Some t' \<longrightarrow> lookup h2 a ks' = Some t') \<and>
            (\<forall>i\<le>length post. lookup h2 a (pre @ k # take i post) = Some (length h + i)))"
proof -
  define n where "n = length h"
  define h' where "h' = store (h @ [[]]) m (Map_set (deref (h @ [[]]) m) k (MapRef n))"
  have len': "length h' = Suc n" by (simp add: h'_def n_def length_store)
  have m_n: "m < n" using m by (simp add: n_def)
  have dm: "deref h' m = Map_set (deref h m) k (MapRef n)"
    using m_n by (simp add: h'_def deref_store deref_new n_def)
  have dx: "deref h' x = deref h x" if "x \<noteq> m" for x
    using that by (simp add: h'_def deref_store deref_new)
  have dn: "deref h' n = []" using m_n dx [of n] by (simp add: deref_def n_def)
  have np: "\<exists>p. Map_get (deref h m) k = Prim p"
    using nh by (cases "Map_get (deref h m) k") (auto dest: Map_get_MapRef_has)
  have step: "find_loop ks (pre @ k # post) True a h = find_loop ks post True n h'"
    using pre nh np by (auto simp: find_loop_append new_Map_def h'_def n_def)
  have "n < length h'" using len' by simp
  from find_loop_fresh [OF this dn, of ks post] obtain h1 t where
    fl: "find_loop ks post True n h' = (h1, Inr (Some t))" and
    l1: "length h1 = length h' + length post" and
    t: "t = (if post = [] then n else length h' + length post - 1)" and
    fr: "\<forall>x. x < length h' \<and> x \<noteq> n \<longrightarrow> deref h1 x = deref h' x" and
    e: "deref h1 t = []" and
    lk: "\<forall>h2. (\<forall>x. x \<noteq> t \<longrightarrow> deref h2 x = deref h1 x) \<longrightarrow>
           (\<forall>i\<le>length post.
              lookup h2 n (take i post) = Some (if i = 0 then n else length h' + i - 1))"
    by blast
  have t': "t = n + length post" using t len' by (cases post) auto
  have d1m: "deref h1 m = Map_set (deref h m) k (MapRef n)"
    using fr m_n len' dm by simp
  have d1x: "deref h1 x = deref h x" if "x < n" "x \<noteq> m" for x
    using fr that len' dx by simp
  have "(\<forall>ks' t'. lookup h a ks' = Some t' \<longrightarrow> lookup h2 a ks' = Some t') \<and>
        (\<forall>i\<le>length post. lookup h2 a (pre @ k # take i post) = Some (length h + i))"
    if h2: "\<forall>x. x \<noteq> t \<longrightarrow> deref h2 x = deref h1 x" for h2
  proof -
    have ext: "\<forall>x k' b. Map_get (deref h x) k' = MapRef b \<longrightarrow> Map_get (deref h2 x) k' = MapRef b"
    proof (intro allI impI)
      fix x k' b assume g: "Map_get (deref h x) k' = MapRef b"
      then have "deref h x \<noteq> []" by (auto simp: Map_get_def)
      then have xn: "x < n" by (auto simp: deref_def n_def split: if_splits)
      then have "x \<noteq> t" using t' by simp
      then have eq: "deref h2 x = deref h1 x" using h2 by simp
      show "Map_get (deref h2 x) k' = MapRef b"
      proof (cases "x = m")
        case True
        then have "k' \<noteq> k" using g np by auto
        then show ?thesis using eq d1m True g by (simp add: Map_get_set)
      next
        case False
        then show ?thesis using eq d1x xn g by simp
      qed
    qed
    have mono: "\<forall>ks' t'. lookup h a ks' = Some t' \<longrightarrow> lookup h2 a ks' = Some t'"
      using lookup_extend [OF ext] by blast
    then have p2: "lookup h2 a pre = Some m" using pre by blast
    have "m \<noteq> t" using m_n t' by simp
    then have g: "Map_get (deref h2 m) k = MapRef n" using h2 d1m by (simp add: Map_get_set)
    have "lookup h2 a (pre @ k # take i post) = Some (length h + i)" if i: "i \<le> length post" for i
    proof -
      have "lookup h2 n (take i post) = Some (if i = 0 then n else length h' + i - 1)"
        using lk h2 i by blast
      then have "lookup h2 n (take i post) = Some (n + i)" using len' by (cases i) auto
      then show ?thesis using p2 g by (simp add: lookup_append n_def)
    qed
    then show ?thesis using mono by blast
  qed
  moreover have "length h1 = length h + Suc (length post)" using l1 len' by (simp add: n_def)
  moreover have "t = length h + length post" using t' by (simp add: n_def)
  moreover have "\<forall>x. x < length h \<and> x \<noteq> m \<longrightarrow> deref h1 x = deref h x"
    using d1x by (simp add: n_def)
  moreover have "deref h1 m = Map_set (deref h m) k (MapRef (length h))"
    using d1m by (simp add: n_def)
  ultimately show ?thesis using step fl e by simp
qed

text \<open>Create mode on a well-formed heap: what a thrown error and a returned map mean.\<close>

lemma find_loop_Inl:
  assumes wf: "wf_heap h" and a: "a < length h"
    and fl: "find_loop ks rest True a h = (h', Inl e)"
  shows "h' = h \<and> (\<exists>pre k post m p. rest = pre @ k # post \<and> lookup h a pre = Some m
           \<and> Map_get (deref h m) k = Prim p \<and> Map_has (deref h m) k \<and> e = conflict_error k ks)"
proof (cases "lookup h a rest")
  case (Some t)
  then show ?thesis using fl by (simp add: find_loop_resolved)
next
  case None
  from lookup_None_decomp [OF None] obtain pre k post m p where
    d: "rest = pre @ k # post" "lookup h a pre = Some m" "Map_get (deref h m) k = Prim p"
    by blast
  show ?thesis
  proof (cases "Map_has (deref h m) k")
    case True
    then have "find_loop ks rest True a h = (h, Inl (conflict_error k ks))"
      using d by (simp add: find_loop_conflict)
    then show ?thesis using fl d True by auto
  next
    case False
    have "m < length h" using lookup_valid [OF wf a d(2)] .
    from find_loop_creates [OF d(2) False this, of ks post]
    show ?thesis using fl d(1) by auto
  qed
qed

lemma find_loop_Inr_cases [consumes 3, case_names resolved created]:
  assumes wf: "wf_heap h" and a: "a < length h"
    and fl: "find_loop ks rest True a h = (h1, Inr r)"
  obtains
    (resolved) t where "r = Some t" "t < length h" "lookup h a rest = Some t" "h1 = h"
  | (created) pre k post m t where "r = Some t" "rest = pre @ k # post"
      "lookup h a pre = Some m" "m < length h" "lookup h a (pre @ [k]) = None"
      "lookup h a rest = None"
      "length h1 = length h + Suc (length post)" "t = length h + length post"
      "\<And>x. x < length h \<Longrightarrow> x \<noteq> m \<Longrightarrow> deref h1 x = deref h x"
      "deref h1 m = Map_set (deref h m) k (MapRef (length h))"
      "deref h1 t = []"
      "\<And>h2 ks' t'. (\<And>x. x \<noteq> t \<Longrightarrow> deref h2 x = deref h1 x) \<Longrightarrow> lookup h a ks' = Some t'
          \<Longrightarrow> lookup h2 a ks' = Some t'"
      "\<And>h2 i. (\<And>x. x \<noteq> t \<Longrightarrow> deref h2 x = deref h1 x) \<Longrightarrow> i \<le> length post
          \<Longrightarrow> lookup h2 a (pre @ k # take i post) = Some (length h + i)"
proof (cases "lookup h a rest")
  case (Some t)
  then have r: "r = Some t" and h1: "h1 = h" using fl by (simp_all add: find_loop_resolved)
  have "t < length h" using lookup_valid [OF wf a Some] .
  with r show ?thesis using Some h1 by (rule resolved)
next
  case None
  from lookup_None_decomp [OF None] obtain pre k post m p where
    d: "rest = pre @ k # post" "lookup h a pre = Some m" "Map_get (deref h m) k = Prim p"
    by blast
  have nk: "lookup h a (pre @ [k]) = None" using d by (simp add: lookup_append)
  have m: "m < length h" using lookup_valid [OF wf a d(2)] .
  show ?thesis
  proof (cases "Map_has (deref h m) k")
    case True
    then have "find_loop ks rest True a h = (h, Inl (conflict_error k ks))"
      using d by (simp add: find_loop_conflict)
    then show ?thesis using fl by simp
  next
    case False
    from find_loop_creates [OF d(2) False m, of ks post] obtain h1' t where
      c: "find_loop ks (pre @ k # post) True a h = (h1', Inr (Some t))"
         "length h1' = length h + Suc (length post)"
         "t = length h + length post"
         "\<forall>x. x < length h \<and> x \<noteq> m \<longrightarrow> deref h1' x = deref h x"
         "deref h1' m = Map_set (deref h m) k (MapRef (length h))"
         "deref h1' t = []"
         "\<forall>h2. (\<forall>x. x \<noteq> t \<longrightarrow> deref h2 x = deref h1' x) \<longrightarrow>
            (\<forall>ks' t'. lookup h a ks' = Some t' \<longrightarrow> lookup h2 a ks' = Some t') \<and>
            (\<forall>i\<le>length post. lookup h2 a (pre @ k # take i post) = Some (length h + i))"
      by blast
    have eq: "h1' = h1" "r = Some t" using c(1) fl d(1) by simp_all
    show ?thesis
    proof (rule created [of t pre k post m])
      show "r = Some t" by (rule eq)
      show "rest = pre @ k # post" by (rule d)
      show "lookup h a pre = Some m" by (rule d)
      show "m < length h" by (rule m)
      show "lookup h a (pre @ [k]) = None" by (rule nk)
      show "lookup h a rest = None" by (rule None)
      show "length h1 = length h + Suc (length post)" using c(2) eq by simp
      show "t = length h + length post" by (rule c)
      show "deref h1 x = deref h x" if "x < length h" "x \<noteq> m" for x
        using c(4) eq that by simp
      show "deref h1 m = Map_set (deref h m) k (MapRef (length h))" using c(5) eq by simp
      show "deref h1 t = []" using c(6) eq by simp
      show "lookup h2 a ks' = Some t'"
        if "\<And>x. x \<noteq> t \<Longrightarrow> deref h2 x = deref h1 x" "lookup h a ks' = Some t'" for h2 ks' t'
      proof -
        have "\<forall>x. x \<noteq> t \<longrightarrow> deref h2 x = deref h1' x" using that(1) eq by simp
        with c(7) have "\<forall>ks' t'. lookup h a ks' = Some t' \<longrightarrow> lookup h2 a ks' = Some t'"
          by blast
        then show ?thesis using that(2) by blast
      qed
      show "lookup h2 a (pre @ k # take i post) = Some (length h + i)"
        if "\<And>x. x \<noteq> t \<Longrightarrow> deref h2 x = deref h1 x" "i \<le> length post" for h2 i
      proof -
        have "\<forall>x. x \<noteq> t \<longrightarrow> deref h2 x = deref h1' x" using that(1) eq by simp
        with c(7) have "\<forall>i\<le>length post. lookup h2 a (pre @ k # take i post) = Some (length h + i)"
          by blast
        then show ?thesis using that(2) by blast
      qed
    qed
  qed
qed

section \<open>The methods in terms of path resolution\<close>

text \<open>
  Each method, with its argument array split into the path to the target map and the last
  key (and the value, for \<^verbatim>\<open>set\<close>). The case of a single key, which the source
  treats apart, is the case of the empty path.
\<close>

lemma set_snoc:
  "MultiLevelMap_set this (P @ [kf, v]) h =
     (case find_loop P P True (internalMap this) h of
        (h1, Inl e) \<Rightarrow> (h1, Inl e)
      | (h1, Inr None) \<Rightarrow> (h1, Inr (Prim JSUndefined))
      | (h1, Inr (Some m)) \<Rightarrow> (store h1 m (Map_set (deref h1 m) kf v), Inr (MapRef m)))"
proof (cases P)
  case Nil
  then show ?thesis by (simp add: MultiLevelMap_set_def)
next
  case (Cons k ks)
  have "length (P @ [kf, v]) - 2 = length P" by simp
  moreover have "(P @ [kf, v]) ! length P = kf" "(P @ [kf, v]) ! Suc (length P) = v"
    by (simp_all add: nth_append)
  ultimately show ?thesis using Cons
    by (simp add: MultiLevelMap_set_def s_FIND_CHILD_MAP_def Let_def nth_append)
qed

lemma params_split:
  assumes "2 \<le> length params"
  shows "\<exists>P. params = P @ [params ! (length params - 2), params ! (length params - 1)]
           \<and> P = take (length params - 2) params"
proof -
  from assms obtain xs y where p: "params = xs @ [y]" by (cases params rule: rev_cases) auto
  with assms obtain P x where x: "xs = P @ [x]" by (cases xs rule: rev_cases) auto
  have "params = P @ [x, y]" using p x by simp
  then show ?thesis by (simp add: nth_append)
qed

lemma get_snoc:
  "MultiLevelMap_get this (P @ [kf]) h =
     (h, Inr (case lookup h (internalMap this) P of
                None \<Rightarrow> Prim JSUndefined | Some m \<Rightarrow> Map_get (deref h m) kf))"
  by (cases P) (simp_all add: MultiLevelMap_get_def s_FIND_CHILD_MAP_lookup Let_def nth_append
      split: option.splits)

lemma has_snoc:
  "MultiLevelMap_has this (P @ [kf]) h =
     (h, Inr (case lookup h (internalMap this) P of
                None \<Rightarrow> False | Some m \<Rightarrow> Map_has (deref h m) kf))"
  by (cases P) (simp_all add: MultiLevelMap_has_def s_FIND_CHILD_MAP_lookup Let_def nth_append
      split: option.splits)

lemma delete_snoc:
  "MultiLevelMap_delete this (P @ [kf]) h =
     (case lookup h (internalMap this) P of
        None \<Rightarrow> (h, Inr False)
      | Some m \<Rightarrow> (store h m (AList.delete kf (deref h m)), Inr (Map_has (deref h m) kf)))"
  by (cases P) (simp_all add: MultiLevelMap_delete_def s_FIND_CHILD_MAP_lookup Let_def nth_append
      Map_delete_def split: option.splits)

lemma isMap_lookup:
  "MultiLevelMap_isMap this keys h = (h, Inr (lookup h (internalMap this) keys \<noteq> None))"
  by (cases keys) (auto simp: MultiLevelMap_isMap_def s_FIND_CHILD_MAP_lookup split: option.splits)

lemma clear_lookup:
  "MultiLevelMap_clear this keys h =
     (case lookup h (internalMap this) keys of
        None \<Rightarrow> (h, Inr ()) | Some m \<Rightarrow> (store h m [], Inr ()))"
  by (cases keys) (auto simp: MultiLevelMap_clear_def s_FIND_CHILD_MAP_lookup Map_clear_def
      split: option.splits)

lemma size_lookup:
  "MultiLevelMap_size this keys h =
     (h, Inr (case lookup h (internalMap this) keys of None \<Rightarrow> 0 | Some m \<Rightarrow> length (deref h m)))"
  by (cases keys) (auto simp: MultiLevelMap_size_def s_FIND_CHILD_MAP_lookup Map_size_def
      split: option.splits)

lemma keys_lookup:
  "MultiLevelMap_keys this keys h =
     (h, Inr (case lookup h (internalMap this) keys of None \<Rightarrow> [] | Some m \<Rightarrow> map fst (deref h m)))"
  by (cases keys) (auto simp: MultiLevelMap_keys_def s_FIND_CHILD_MAP_lookup Map_keys_def
      s_EMPTY_ITERATOR_def split: option.splits)

lemma values_lookup:
  "MultiLevelMap_values this keys h =
     (h, Inr (case lookup h (internalMap this) keys of None \<Rightarrow> [] | Some m \<Rightarrow> map snd (deref h m)))"
  by (cases keys) (auto simp: MultiLevelMap_values_def s_FIND_CHILD_MAP_lookup Map_values_def
      s_EMPTY_ITERATOR_def split: option.splits)

lemma entries_lookup:
  "MultiLevelMap_entries this keys h =
     (h, Inr (case lookup h (internalMap this) keys of None \<Rightarrow> [] | Some m \<Rightarrow> deref h m))"
  by (cases keys) (auto simp: MultiLevelMap_entries_def s_FIND_CHILD_MAP_lookup Map_entries_def
      s_EMPTY_ITERATOR_def split: option.splits)

subsection \<open>Errors of \<^verbatim>\<open>set\<close>\<close>

lemma set_short:
  assumes "length params < 2"
  shows "\<exists>msg. MultiLevelMap_set this params h = (h, Inl (ArgumentError msg))"
proof (cases params)
  case Nil
  then show ?thesis by (simp add: MultiLevelMap_set_def)
next
  case (Cons x xs)
  then have "xs = []" using assms by simp
  then show ?thesis using Cons by (simp add: MultiLevelMap_set_def)
qed

lemma set_conflict_length:
  assumes "MultiLevelMap_set this params h = (h', Inl (ConflictError key keys))"
  shows "2 \<le> length params"
proof (rule ccontr)
  assume "\<not> 2 \<le> length params"
  then have "length params < 2" by simp
  from set_short [OF this, of this h] show False using assms by auto
qed

lemma find_loop_error:
  "find_loop ks rest cr a h = (h', Inl e) \<Longrightarrow> \<exists>k. k \<in> set rest \<and> e = conflict_error k ks"
proof (induction rest arbitrary: a h)
  case Nil
  then show ?case by simp
next
  case (Cons k rest)
  show ?case
  proof (cases "Map_get (deref h a) k")
    case (MapRef b)
    with Cons.prems have "find_loop ks rest cr b h = (h', Inl e)" by simp
    from Cons.IH [OF this] show ?thesis by auto
  next
    case (Prim p)
    show ?thesis
    proof (cases "cr \<and> \<not> Map_has (deref h a) k")
      case True
      with Cons.prems Prim obtain h2 b where "find_loop ks rest cr b h2 = (h', Inl e)"
        by (auto simp: new_Map_def)
      from Cons.IH [OF this] show ?thesis by auto
    next
      case False
      with Cons.prems Prim show ?thesis by (auto split: if_splits)
    qed
  qed
qed

lemma set_error:
  assumes "2 \<le> length params" "snd (MultiLevelMap_set this params h) = Inl e"
  shows "\<exists>k. e = conflict_error k (take (length params - 2) params)"
proof -
  from params_split [OF assms(1)] obtain P kf v where
    p: "params = P @ [kf, v]" and P: "P = take (length params - 2) params" by blast
  obtain h1 q where fl: "find_loop P P True (internalMap this) h = (h1, q)" by fastforce
  with assms(2) have "q = Inl e"
    by (cases q) (auto simp: p set_snoc split: option.splits)
  with fl find_loop_error [of P P True "internalMap this" h h1 e] show ?thesis using P by auto
qed

section \<open>Well-formed heaps\<close>

text \<open>
  The constructor and every method turn a well-formed heap into a well-formed heap and
  never move the root, so \<open>wf_heap\<close> and an allocated root hold in every state that a
  program reaches, as long as the maps it passes to \<^verbatim>\<open>set\<close> as values exist. The methods
  that only read return the heap as it is (see the lemmas of the previous section).
\<close>

lemma valid_val_mono: "valid_val h v \<Longrightarrow> length h \<le> length h' \<Longrightarrow> valid_val h' v"
  by (cases v) (auto simp: valid_val_def)

lemma wf_heap_iff:
  "wf_heap h \<longleftrightarrow>
     (\<forall>m\<in>set h. distinct (map fst m) \<and> (\<forall>e\<in>set m. valid_val h (snd e)))"
  by (simp add: wf_heap_def list_all_iff)

lemma wf_new_Map:
  assumes "wf_heap h"
  shows "wf_heap (h @ [[]])"
proof -
  have "valid_val (h @ [[]]) v" if "valid_val h v" for v
    using that by (rule valid_val_mono) simp
  then show ?thesis using assms by (fastforce simp: wf_heap_iff)
qed

lemma wf_store:
  assumes "wf_heap h" "distinct (map fst m)" "\<forall>e\<in>set m. valid_val h (snd e)"
  shows "wf_heap (store h a m)"
proof -
  have "set (h[a := m]) \<subseteq> insert m (set h)" by (rule set_update_subset_insert)
  moreover have "valid_val (h[a := m]) v = valid_val h v" for v
    by (cases v) (simp_all add: valid_val_def)
  ultimately show ?thesis using assms by (auto simp: wf_heap_iff store_def)
qed

lemma wf_deref:
  assumes "wf_heap h"
  shows "distinct (map fst (deref h a))" "\<forall>e\<in>set (deref h a). valid_val h (snd e)"
proof -
  have "deref h a = [] \<or> deref h a \<in> set h" by (simp add: deref_def)
  then show "distinct (map fst (deref h a))" "\<forall>e\<in>set (deref h a). valid_val h (snd e)"
    using assms by (auto simp: wf_heap_iff)
qed

lemma set_AList_update: "set (AList.update k v m) \<subseteq> insert (k, v) (set m)"
  by (induction m) auto

lemma wf_Map_set:
  assumes "distinct (map fst m)" "\<forall>e\<in>set m. valid_val h (snd e)" "valid_val h v"
  shows "distinct (map fst (Map_set m k v))" "\<forall>e\<in>set (Map_set m k v). valid_val h (snd e)"
  using assms set_AList_update [of k v m] by (auto simp: Map_set_def distinct_update)

lemma wf_Map_delete:
  assumes "distinct (map fst m)" "\<forall>e\<in>set m. valid_val h (snd e)"
  shows "distinct (map fst (fst (Map_delete m k)))"
    "\<forall>e\<in>set (fst (Map_delete m k)). valid_val h (snd e)"
proof -
  show "distinct (map fst (fst (Map_delete m k)))"
    using assms(1) by (simp add: Map_delete_def distinct_delete)
  have "set (AList.delete k m) \<subseteq> set m" by (auto simp: AList.delete_eq)
  then show "\<forall>e\<in>set (fst (Map_delete m k)). valid_val h (snd e)"
    using assms(2) by (auto simp: Map_delete_def)
qed

lemma wf_store_set:
  assumes "wf_heap h" "valid_val h v"
  shows "wf_heap (store h a (Map_set (deref h a) k v))"
proof (rule wf_store [OF assms(1)])
  show "distinct (map fst (Map_set (deref h a) k v))"
    by (rule wf_Map_set(1) [OF wf_deref [OF assms(1)] assms(2)])
  show "\<forall>e\<in>set (Map_set (deref h a) k v). valid_val h (snd e)"
    by (rule wf_Map_set(2) [OF wf_deref [OF assms(1)] assms(2)])
qed

lemma find_loop_wf:
  "wf_heap h \<Longrightarrow> a < length h \<Longrightarrow> find_loop ks rest cr a h = (h', r)
   \<Longrightarrow> wf_heap h' \<and> length h \<le> length h'"
proof (induction rest arbitrary: a h)
  case Nil
  then show ?case by simp
next
  case (Cons k rest)
  show ?case
  proof (cases "Map_get (deref h a) k")
    case (MapRef b)
    have "b < length h" using wf_heap_valid [OF Cons.prems(1) MapRef] .
    moreover have "find_loop ks rest cr b h = (h', r)" using Cons.prems(3) MapRef by simp
    ultimately show ?thesis using Cons.IH Cons.prems(1) by blast
  next
    case (Prim p)
    show ?thesis
    proof (cases "cr \<and> \<not> Map_has (deref h a) k")
      case False
      then show ?thesis using Cons.prems Prim by (auto split: if_splits)
    next
      case True
      define h2 where
        "h2 = store (h @ [[]]) a (Map_set (deref (h @ [[]]) a) k (MapRef (length h)))"
      have "valid_val (h @ [[]]) (MapRef (length h))" by (simp add: valid_val_def)
      then have wf2: "wf_heap h2"
        unfolding h2_def using wf_new_Map [OF Cons.prems(1)] by (rule wf_store_set [rotated])
      have l2: "length h2 = Suc (length h)" by (simp add: h2_def length_store)
      have "find_loop ks rest cr (length h) h2 = (h', r)"
        using Cons.prems(3) Prim True by (simp add: new_Map_def h2_def)
      from Cons.IH [OF wf2 _ this] l2 show ?thesis by simp
    qed
  qed
qed

lemma constructor_wf:
  assumes "wf_heap h" and "constructor h = (h', this)"
  shows "wf_heap h' \<and> internalMap this < length h' \<and> length h \<le> length h'"
  using assms wf_new_Map [of h] by (auto simp: constructor_def new_Map_def)

lemma set_wf:
  assumes wf: "wf_heap h" and c: "internalMap this < length h"
    and v: "params \<noteq> [] \<longrightarrow> valid_val h (last params)"
    and s: "MultiLevelMap_set this params h = (h', r)"
  shows "wf_heap h' \<and> length h \<le> length h'"
proof (cases "2 \<le> length params")
  case False
  then have "length params < 2" by simp
  from set_short [OF this, of this h] s wf show ?thesis by auto
next
  case True
  from params_split [OF True] obtain P where
    p: "params = P @ [params ! (length params - 2), params ! (length params - 1)]" by blast
  define kf where "kf = params ! (length params - 2)"
  define w where "w = params ! (length params - 1)"
  have p': "params = P @ [kf, w]" using p by (simp add: kf_def w_def)
  have vw: "valid_val h w" using v p' by simp
  obtain h1 q where fl: "find_loop P P True (internalMap this) h = (h1, q)" by fastforce
  from find_loop_wf [OF wf c fl] have wf1: "wf_heap h1" and l1: "length h \<le> length h1" by simp_all
  have "valid_val h1 w" using vw l1 by (rule valid_val_mono)
  then have "wf_heap (store h1 t (Map_set (deref h1 t) kf w))" for t
    using wf1 by (rule wf_store_set [rotated])
  then show ?thesis using s fl wf1 l1
    by (auto simp: p' set_snoc length_store split: sum.splits option.splits)
qed

lemma delete_wf:
  assumes wf: "wf_heap h" and s: "MultiLevelMap_delete this keys h = (h', r)"
  shows "wf_heap h' \<and> length h' = length h"
proof (cases keys rule: rev_cases)
  case Nil
  then show ?thesis using s wf by (simp add: MultiLevelMap_delete_def)
next
  case (snoc P kf)
  have "wf_heap (store h t (fst (Map_delete (deref h t) kf)))" for t
  proof (rule wf_store [OF wf])
    show "distinct (map fst (fst (Map_delete (deref h t) kf)))"
      by (rule wf_Map_delete(1) [OF wf_deref [OF wf]])
    show "\<forall>e\<in>set (fst (Map_delete (deref h t) kf)). valid_val h (snd e)"
      by (rule wf_Map_delete(2) [OF wf_deref [OF wf]])
  qed
  then show ?thesis using s wf
    by (auto simp: snoc delete_snoc length_store Map_delete_def split: option.splits)
qed

lemma clear_wf:
  assumes wf: "wf_heap h" and s: "MultiLevelMap_clear this keys h = (h', r)"
  shows "wf_heap h' \<and> length h' = length h"
proof -
  have "wf_heap (store h t [])" for t using wf by (rule wf_store) simp_all
  then show ?thesis using s wf by (auto simp: clear_lookup length_store split: option.splits)
qed

section \<open>Paths that do not run through a cycle\<close>

text \<open>
  A write to the map that a path resolves to leaves the resolution of the path and of its
  prefixes as it was, provided no proper prefix resolves to that map.
\<close>

lemma not_revisits:
  "\<not> path_revisits this P h \<Longrightarrow> lookup h (internalMap this) P = Some t \<Longrightarrow> i < length P
   \<Longrightarrow> lookup h (internalMap this) (take i P) \<noteq> Some t"
  by (auto simp: path_revisits_def resolves_to_lookup list_ex_iff)

lemma lookup_after_write:
  assumes t: "\<And>i. i < length P \<Longrightarrow> lookup h a (take i P) \<noteq> Some t"
    and fr: "\<And>x. x \<noteq> t \<Longrightarrow> deref h' x = deref h x"
    and j: "j \<le> length P"
  shows "lookup h' a (take j P) = lookup h a (take j P)"
proof (rule lookup_frame, intro allI impI)
  fix i m assume i: "i < length (take j P)" and m: "lookup h a (take i (take j P)) = Some m"
  from i j have ij: "i < j" "i < length P" by simp_all
  then have "min i j = i" by simp
  then have "take i (take j P) = take i P" by simp
  note ij(2) this
  with m t have "m \<noteq> t" by auto
  then show "deref h' m = deref h m" by (rule fr)
qed

text \<open>
  The same, when the write changes one entry of the target only: it is enough that the
  path never goes on from the target with the key of that entry.
\<close>

lemma lookup_frame_key:
  "(\<forall>i<length ks. \<forall>m. lookup h a (take i ks) = Some m
       \<longrightarrow> Map_get (deref h' m) (ks ! i) = Map_get (deref h m) (ks ! i))
   \<Longrightarrow> lookup h' a ks = lookup h a ks"
proof (induction ks arbitrary: a)
  case Nil
  then show ?case by simp
next
  case (Cons k ks)
  from Cons.prems have a: "Map_get (deref h' a) k = Map_get (deref h a) k" by fastforce
  show ?case
  proof (cases "Map_get (deref h a) k")
    case (Prim p)
    then show ?thesis using a by simp
  next
    case (MapRef b)
    have "\<forall>i<length ks. \<forall>m. lookup h b (take i ks) = Some m
            \<longrightarrow> Map_get (deref h' m) (ks ! i) = Map_get (deref h m) (ks ! i)"
    proof (intro allI impI)
      fix i m assume i: "i < length ks" and m: "lookup h b (take i ks) = Some m"
      have "lookup h a (take (Suc i) (k # ks)) = Some m" using m MapRef by simp
      moreover have "Suc i < length (k # ks)" using i by simp
      ultimately have "Map_get (deref h' m) ((k # ks) ! Suc i) = Map_get (deref h m) ((k # ks) ! Suc i)"
        using Cons.prems by blast
      then show "Map_get (deref h' m) (ks ! i) = Map_get (deref h m) (ks ! i)" by simp
    qed
    then have "lookup h' b ks = lookup h b ks" by (rule Cons.IH)
    then show ?thesis using a MapRef by simp
  qed
qed

lemma not_leaves:
  "\<not> leaves_through this P k h \<Longrightarrow> lookup h (internalMap this) P = Some t \<Longrightarrow> i < length P
   \<Longrightarrow> lookup h (internalMap this) (take i P) = Some t \<Longrightarrow> P ! i \<noteq> k"
  by (auto simp: leaves_through_def resolves_to_lookup list_ex_iff)

lemma lookup_after_write_key:
  assumes nl: "\<And>i. i < length P \<Longrightarrow> lookup h a (take i P) = Some t \<Longrightarrow> P ! i \<noteq> kf"
    and fr: "\<And>x. x \<noteq> t \<Longrightarrow> deref h' x = deref h x"
    and frk: "\<And>k. k \<noteq> kf \<Longrightarrow> Map_get (deref h' t) k = Map_get (deref h t) k"
    and j: "j \<le> length P"
  shows "lookup h' a (take j P) = lookup h a (take j P)"
proof (rule lookup_frame_key, intro allI impI)
  fix i m assume i: "i < length (take j P)" and m: "lookup h a (take i (take j P)) = Some m"
  from i j have ij: "i < j" "i < length P" by simp_all
  then have "min i j = i" by simp
  then have tk: "take i (take j P) = take i P" by simp
  have nth: "take j P ! i = P ! i" using ij by simp
  show "Map_get (deref h' m) (take j P ! i) = Map_get (deref h m) (take j P ! i)"
  proof (cases "m = t")
    case True
    then have "P ! i \<noteq> kf" using nl [OF ij(2)] m tk by simp
    then show ?thesis using frk True nth by simp
  next
    case False
    then show ?thesis using fr by simp
  qed
qed

lemma filter_upt_from:
  assumes "p \<le> n" "\<And>i. i < p \<Longrightarrow> \<not> Q i" "\<And>i. p \<le> i \<Longrightarrow> i < n \<Longrightarrow> Q i"
  shows "length (filter Q [0..<n]) = n - p"
proof -
  have "[0..<n] = [0..<p] @ [p..<n]"
    using assms(1) upt_add_eq_append [of 0 p "n - p"] by simp
  moreover have "filter Q [0..<p] = []" using assms(2) by (simp add: filter_empty_conv)
  moreover have "filter Q [p..<n] = [p..<n]" using assms(3) by (simp add: filter_id_conv)
  ultimately show ?thesis by simp
qed

section \<open>The example containers, evaluated\<close>

lemma fresh_simps: "fresh_heap = [[]]" "fresh = \<lparr>internalMap = 0\<rparr>"
  by (simp_all add: fresh_heap_def fresh_def constructor_def new_Map_def)

text \<open>The definitions that evaluate a call on a concrete heap.\<close>

lemmas eval_defs =
  fresh_simps MultiLevelMap_set_def MultiLevelMap_get_def MultiLevelMap_has_def
  MultiLevelMap_isMap_def MultiLevelMap_delete_def MultiLevelMap_clear_def MultiLevelMap_size_def
  MultiLevelMap_keys_def s_FIND_CHILD_MAP_def deref_def store_def new_Map_def Map_get_def
  Map_has_def Map_set_def Map_delete_def Map_clear_def Map_size_def Map_keys_def
  conflict_error_def JSON_stringify_ok_def

lemma scoped_heap_eq:
  "scoped_heap = [[(str ''a'', num 1), (str ''b'', MapRef 1)], [(str ''c'', num 2)]]"
  by (simp add: scoped_heap_def fresh_simps MultiLevelMap_set_def s_FIND_CHILD_MAP_def
      deref_def store_def new_Map_def Map_get_def Map_has_def Map_set_def)

lemma leaf_heap_eq: "leaf_heap = [[(str ''key1'', num 1)]]"
  by (simp add: leaf_heap_def fresh_simps MultiLevelMap_set_def s_FIND_CHILD_MAP_def
      deref_def store_def new_Map_def Map_get_def Map_has_def Map_set_def)

lemma nested_heap_eq: "nested_heap = [[(str ''x'', MapRef 1)], [(str ''y'', num 1)]]"
  by (simp add: nested_heap_def fresh_simps MultiLevelMap_set_def s_FIND_CHILD_MAP_def
      deref_def store_def new_Map_def Map_get_def Map_has_def Map_set_def)

lemma cyclic_heap_eq: "cyclic_heap = [[(str ''a'', MapRef 0)]]"
  by (simp add: cyclic_heap_def fresh_simps MultiLevelMap_set_def s_FIND_CHILD_MAP_def
      deref_def store_def new_Map_def Map_get_def Map_has_def Map_set_def)

lemma user_heap_eq: "user_heap = [[], []]"
  by (simp add: user_heap_def fresh_simps new_Map_def)

lemma circular_heap_eq: "circular_heap = [[(circular, num 1)]]"
  by (simp add: circular_heap_def eval_defs)

lemma symbol_heap_eq: "symbol_heap = [[(Prim (JSSymbol 0), num 1)]]"
  by (simp add: symbol_heap_def eval_defs)


lemma wf_leaf: "wf_heap leaf_heap" "internalMap fresh < length leaf_heap"
  by (simp_all add: leaf_heap_eq fresh_simps wf_heap_def valid_val_def)

lemma wf_nested: "wf_heap nested_heap" "internalMap fresh < length nested_heap"
  by (simp_all add: nested_heap_eq fresh_simps wf_heap_def valid_val_def)

lemma wf_cyclic: "wf_heap cyclic_heap" "internalMap fresh < length cyclic_heap"
  by (simp_all add: cyclic_heap_eq fresh_simps wf_heap_def valid_val_def)

lemma selfref_heap_eq: "selfref_heap = [[(str ''k'', MapRef 1)], [(str ''self'', MapRef 1)]]"
  by (simp add: selfref_heap_def fresh_simps MultiLevelMap_set_def s_FIND_CHILD_MAP_def
      deref_def store_def new_Map_def Map_get_def Map_has_def Map_set_def)

lemma wf_selfref: "wf_heap selfref_heap" "internalMap fresh < length selfref_heap"
  by (simp_all add: selfref_heap_eq fresh_simps wf_heap_def valid_val_def)

section \<open>Reading back what was written (C1)\<close>

text \<open>
  Claim C1 says that for every non-empty key sequence \<^verbatim>\<open>K\<close> and every value \<^verbatim>\<open>v\<close> for which
  \<^verbatim>\<open>set(...K, v)\<close> completes without throwing, \<^verbatim>\<open>get(...K)\<close> then returns \<^verbatim>\<open>v\<close> and
  \<^verbatim>\<open>has(...K)\<close> returns true. Maps are stored by reference, and the container hands out its own
  maps: after \<^verbatim>\<open>C.set('a', C.set('a', 0))\<close> the root is stored in itself under \<^verbatim>\<open>'a'\<close>. Then
  \<^verbatim>\<open>C.set('a', 'a', 5)\<close> resolves \<^verbatim>\<open>['a']\<close> to the root and overwrites the entry \<^verbatim>\<open>'a'\<close> that
  the path went through, so that \<^verbatim>\<open>C.get('a', 'a')\<close> finds the number 5 where it needs a map,
  and returns \<^verbatim>\<open>undefined\<close>.
\<close>

theorem set_then_get_counterexample:
  "MultiLevelMap_set fresh [str ''a'', str ''a'', num 5] cyclic_heap
     = ([[(str ''a'', num 5)]], Inr (MapRef 0))
   \<and> MultiLevelMap_get fresh [str ''a'', str ''a''] [[(str ''a'', num 5)]]
     = ([[(str ''a'', num 5)]], Inr (Prim JSUndefined))
   \<and> MultiLevelMap_has fresh [str ''a'', str ''a''] [[(str ''a'', num 5)]]
     = ([[(str ''a'', num 5)]], Inr False)"
  by (simp add: cyclic_heap_eq eval_defs)

text \<open>
  Claim C1, amended: for every non-empty key sequence \<^verbatim>\<open>K\<close> and every value \<^verbatim>\<open>v\<close> such that
  \<^verbatim>\<open>set(...K, v)\<close> completes without throwing, immediately afterwards \<^verbatim>\<open>get(...K)\<close> returns
  exactly \<^verbatim>\<open>v\<close> and \<^verbatim>\<open>has(...K)\<close> returns true, provided that before the call the path did not
  leave the mapping written to through the key written: no proper prefix of \<^verbatim>\<open>K\<close> without its
  last key resolves to the same mapping as \<^verbatim>\<open>K\<close> without its last key and is followed in
  \<^verbatim>\<open>K\<close> by a key equal to the last key of \<^verbatim>\<open>K\<close>. This is so whenever the nested mappings
  form a tree, and also in the container that holds its root under \<^verbatim>\<open>'a'\<close> for
  \<^verbatim>\<open>set('a', 'b', 5)\<close>.
\<close>

theorem set_then_get_has:
  assumes wf: "wf_heap h" and c: "internalMap this < length h" and K: "K \<noteq> []"
    and s: "MultiLevelMap_set this (K @ [v]) h = (h', Inr r)"
    and nl: "\<not> leaves_through this (butlast K) (last K) h"
  shows "MultiLevelMap_get this K h' = (h', Inr v) \<and> MultiLevelMap_has this K h' = (h', Inr True)"
proof -
  define P where "P = butlast K"
  define kf where "kf = last K"
  define a where "a = internalMap this"
  have Kp: "K = P @ [kf]" using K by (simp add: P_def kf_def)
  have s': "MultiLevelMap_set this (P @ [kf, v]) h = (h', Inr r)" using s Kp by simp
  obtain h1 q where fl: "find_loop P P True a h = (h1, q)" by fastforce
  from s' fl obtain q' where q: "q = Inr q'" by (cases q) (auto simp: set_snoc a_def)
  have "\<exists>t. lookup h' a P = Some t \<and> t < length h1 \<and> h' = store h1 t (Map_set (deref h1 t) kf v)"
    using wf c [folded a_def] fl [unfolded q]
  proof (cases rule: find_loop_Inr_cases)
    case (resolved t)
    have h': "h' = store h t (Map_set (deref h t) kf v)"
      using s' fl q resolved by (simp add: set_snoc a_def)
    have "lookup h' a (take (length P) P) = lookup h a (take (length P) P)"
    proof (rule lookup_after_write_key [where t = t and kf = kf])
      show "P ! i \<noteq> kf" if "i < length P" "lookup h a (take i P) = Some t" for i
        using not_leaves [OF nl [folded P_def kf_def]] resolved(3) that by (simp add: a_def)
      show "deref h' x = deref h x" if "x \<noteq> t" for x using that by (simp add: h' deref_store)
      show "Map_get (deref h' t) k = Map_get (deref h t) k" if "k \<noteq> kf" for k
        using that resolved(2) by (simp add: h' deref_store Map_get_set)
    qed simp
    then show ?thesis using resolved h' by simp
  next
    case (created pre k post m t)
    have h': "h' = store h1 t (Map_set (deref h1 t) kf v)"
      using s' fl q created(1) by (simp add: set_snoc a_def)
    have "lookup h' a (pre @ k # take (length post) post) = Some (length h + length post)"
      by (rule created(13)) (simp_all add: h' deref_store)
    moreover have "t < length h1" using created by simp
    ultimately show ?thesis using created(2,8) h' by simp
  qed
  then obtain t where t: "lookup h' a P = Some t" "t < length h1"
    "h' = store h1 t (Map_set (deref h1 t) kf v)" by blast
  have d: "deref h' t = Map_set (deref h1 t) kf v" using t(2,3) by (simp add: deref_store)
  show ?thesis
    using t(1) d by (simp add: Kp get_snoc has_snoc a_def [symmetric] Map_get_set Map_has_set)
qed

theorem set_then_get_has_witness:
  "wf_heap cyclic_heap \<and> internalMap fresh < length cyclic_heap
   \<and> MultiLevelMap_set fresh ([str ''a'', str ''b''] @ [num 5]) cyclic_heap
       = ([[(str ''a'', MapRef 0), (str ''b'', num 5)]], Inr (MapRef 0))
   \<and> path_revisits fresh (butlast [str ''a'', str ''b'']) cyclic_heap
   \<and> \<not> leaves_through fresh (butlast [str ''a'', str ''b'']) (last [str ''a'', str ''b''])
         cyclic_heap
   \<and> MultiLevelMap_get fresh [str ''a'', str ''b''] [[(str ''a'', MapRef 0), (str ''b'', num 5)]]
       = ([[(str ''a'', MapRef 0), (str ''b'', num 5)]], Inr (num 5))
   \<and> MultiLevelMap_has fresh [str ''a'', str ''b''] [[(str ''a'', MapRef 0), (str ''b'', num 5)]]
       = ([[(str ''a'', MapRef 0), (str ''b'', num 5)]], Inr True)"
proof -
  have K: "[str ''a'', str ''b''] \<noteq> []" by simp
  have s: "MultiLevelMap_set fresh ([str ''a'', str ''b''] @ [num 5]) cyclic_heap
       = ([[(str ''a'', MapRef 0), (str ''b'', num 5)]], Inr (MapRef 0))"
    by (simp add: cyclic_heap_eq eval_defs)
  have pr: "path_revisits fresh (butlast [str ''a'', str ''b'']) cyclic_heap"
    by (simp add: path_revisits_def resolves_to_lookup cyclic_heap_eq fresh_simps deref_def
        Map_get_def)
  have nl: "\<not> leaves_through fresh (butlast [str ''a'', str ''b'']) (last [str ''a'', str ''b''])
         cyclic_heap"
    by (simp add: leaves_through_def resolves_to_lookup cyclic_heap_eq fresh_simps deref_def
        Map_get_def)
  from set_then_get_has [OF wf_cyclic K s nl] show ?thesis using wf_cyclic s pr nl by simp
qed

section \<open>Descending through a leaf (C2)\<close>

text \<open>
  After \<^verbatim>\<open>set(k, v1)\<close> with a value that is not a \<^verbatim>\<open>Map\<close>, the call \<^verbatim>\<open>set(k, k2, v2)\<close>
  reaches the \<^verbatim>\<open>throw\<close> statement of the resolver, and \<^verbatim>\<open>get(k)\<close> still returns \<^verbatim>\<open>v1\<close>.
  Whenever \<^verbatim>\<open>set\<close> throws, the heap is the heap before the call: the resolver can only
  throw in a map that existed before the call, and it reaches such a map before it creates
  anything.
\<close>

lemma set_after_leaf:
  assumes "internalMap this < length h"
    and "MultiLevelMap_set this [k, Prim p] h = (h1, r)"
  shows "MultiLevelMap_set this [k, k2, v2] h1 = (h1, Inl (conflict_error k [k]))
       \<and> MultiLevelMap_get this [k] h1 = (h1, Inr (Prim p))"
proof -
  from assms(2)
  have h1: "h1 = store h (internalMap this) (Map_set (deref h (internalMap this)) k (Prim p))"
    by (simp add: MultiLevelMap_set_def)
  have d: "deref h1 (internalMap this) = Map_set (deref h (internalMap this)) k (Prim p)"
    using assms(1) by (simp add: h1 deref_store)
  have "MultiLevelMap_set this [k, k2, v2] h1 = (h1, Inl (conflict_error k [k]))"
    by (simp add: MultiLevelMap_set_def s_FIND_CHILD_MAP_def d Map_get_set Map_has_set)
  moreover have "MultiLevelMap_get this [k] h1 = (h1, Inr (Prim p))"
    by (simp add: MultiLevelMap_get_def d Map_get_set)
  ultimately show ?thesis by simp
qed

lemma set_after_printable_leaf:
  assumes "internalMap this < length h"
    and "MultiLevelMap_set this [k, Prim p] h = (h1, r)"
    and "ToString_ok k" and "JSON_value_ok k"
  shows "MultiLevelMap_set this [k, k2, v2] h1 = (h1, Inl (ConflictError k [k]))
       \<and> MultiLevelMap_get this [k] h1 = (h1, Inr (Prim p))"
  using set_after_leaf [OF assms(1,2), of k2 v2] assms(3,4)
  by (simp add: conflict_error_def JSON_stringify_ok_def)

lemma set_throws_heap_unchanged:
  assumes wf: "wf_heap h" and c: "internalMap this < length h"
    and s: "MultiLevelMap_set this params h = (h', Inl e)"
  shows "h' = h"
proof (cases "2 \<le> length params")
  case False
  then have "length params < 2" by simp
  from set_short [OF this, of this h] s show ?thesis by auto
next
  case True
  from params_split [OF True] obtain P kf v where p: "params = P @ [kf, v]" by blast
  obtain h1 r where fl: "find_loop P P True (internalMap this) h = (h1, r)" by fastforce
  with s p have r: "r = Inl e" and hh: "h' = h1"
    by (auto simp: set_snoc split: sum.splits option.splits)
  from find_loop_Inl [OF wf c fl [unfolded r]] hh show ?thesis by simp
qed

text \<open>
  Claim C2: if \<^verbatim>\<open>set(k, v1)\<close> has stored a leaf value at \<^verbatim>\<open>k\<close>, a subsequent
  \<^verbatim>\<open>set(k, k2, v2)\<close> raises the conflict error and afterwards \<^verbatim>\<open>get(k)\<close> still returns
  \<^verbatim>\<open>v1\<close>. The code builds the message of the conflict error from \<^verbatim>\<open>`${key}`\<close> and
  \<^verbatim>\<open>JSON.stringify(keys)\<close> before it constructs the error, and for a key that cannot be
  printed this throws a \<^verbatim>\<open>TypeError\<close> in place of the conflict error. With an object that
  contains itself as the key \<^verbatim>\<open>k\<close>, and with a symbol as the key \<^verbatim>\<open>k\<close>: \<^verbatim>\<open>set(k, 1)\<close> stores
  the leaf, \<^verbatim>\<open>set(k, 'k2', 2)\<close> throws the \<^verbatim>\<open>TypeError\<close>, the container is unchanged and
  \<^verbatim>\<open>get(k)\<close> still returns 1.
\<close>

theorem set_conflict_unprintable_key:
  "MultiLevelMap_set fresh [circular, num 1] fresh_heap = (circular_heap, Inr (MapRef 0))
   \<and> MultiLevelMap_set fresh [circular, str ''k2'', num 2] circular_heap
       = (circular_heap, Inl TypeError)
   \<and> MultiLevelMap_get fresh [circular] circular_heap = (circular_heap, Inr (num 1))
   \<and> MultiLevelMap_set fresh [Prim (JSSymbol 0), num 1] fresh_heap = (symbol_heap, Inr (MapRef 0))
   \<and> MultiLevelMap_set fresh [Prim (JSSymbol 0), str ''k2'', num 2] symbol_heap
       = (symbol_heap, Inl TypeError)
   \<and> MultiLevelMap_get fresh [Prim (JSSymbol 0)] symbol_heap = (symbol_heap, Inr (num 1))"
  by (simp add: circular_heap_eq symbol_heap_eq circular_def eval_defs)

section \<open>The mappings that \<^verbatim>\<open>set\<close> creates (C3)\<close>

text \<open>
  Claim C3 says that after a successful \<^verbatim>\<open>set(...K, v)\<close> with a key path of length
  \<^verbatim>\<open>n \<ge> 2\<close>, \<^verbatim>\<open>isMap(K[0..i])\<close> is true for every \<^verbatim>\<open>0 \<le> i < n-1\<close>. In the container that
  holds its root under \<^verbatim>\<open>'a'\<close>, \<^verbatim>\<open>set('a', 'a', 5)\<close> succeeds and replaces the root's entry
  \<^verbatim>\<open>'a'\<close> by the number 5: \<^verbatim>\<open>isMap('a')\<close> is false afterwards.
\<close>

theorem set_creates_prefixes_counterexample:
  "snd (MultiLevelMap_set fresh [str ''a'', str ''a'', num 5] cyclic_heap) = Inr (MapRef 0)
   \<and> snd (MultiLevelMap_isMap fresh [str ''a'']
            (fst (MultiLevelMap_set fresh [str ''a'', str ''a'', num 5] cyclic_heap))) = Inr False"
  by (simp add: cyclic_heap_eq eval_defs)

text \<open>
  Claim C3, amended: for every key path \<^verbatim>\<open>K\<close> of length \<^verbatim>\<open>n \<ge> 2\<close>, a successful
  \<^verbatim>\<open>set(...K, v)\<close> allocates exactly as many mappings as there are prefixes \<^verbatim>\<open>K[0..i]\<close>,
  \<^verbatim>\<open>0 \<le> i < n-1\<close>, that did not resolve to a mapping before the call, and each such prefix
  resolves afterwards to a mapping allocated by the call. Provided that before the call the
  path did not leave the mapping written to through the key written (no proper prefix of
  \<^verbatim>\<open>K[0..n-2]\<close> resolves to the same mapping as \<^verbatim>\<open>K[0..n-2]\<close> and is followed in \<^verbatim>\<open>K\<close> by
  a key equal to \<^verbatim>\<open>K[n-1]\<close>), afterwards \<^verbatim>\<open>isMap(K[0..i])\<close> is true for every
  \<^verbatim>\<open>0 \<le> i < n-1\<close>, and every prefix that resolved to a mapping before resolves to the same
  mapping.
\<close>

theorem set_creates_missing_prefixes:
  assumes wf: "wf_heap h" and c: "internalMap this < length h" and K: "2 \<le> length K"
    and s: "MultiLevelMap_set this (K @ [v]) h = (h', Inr r)"
  shows "length h' = length h
          + length (filter (\<lambda>i. resolves_to this (take (Suc i) K) h = None) [0..<length K - 1])
     \<and> (\<forall>i<length K - 1. resolves_to this (take (Suc i) K) h = None
            \<longrightarrow> (\<exists>m. resolves_to this (take (Suc i) K) h' = Some m \<and> length h \<le> m \<and> m < length h'))
     \<and> (\<not> leaves_through this (butlast K) (last K) h \<longrightarrow>
           (\<forall>i<length K - 1. MultiLevelMap_isMap this (take (Suc i) K) h' = (h', Inr True))
         \<and> (\<forall>i<length K - 1. \<forall>m. resolves_to this (take (Suc i) K) h = Some m
                \<longrightarrow> resolves_to this (take (Suc i) K) h' = Some m))"
proof -
  define P where "P = butlast K"
  define kf where "kf = last K"
  define a where "a = internalMap this"
  define NR where "NR = (\<not> leaves_through this (butlast K) (last K) h)"
  have K0: "K \<noteq> []" using K by auto
  have Kp: "K = P @ [kf]" using K0 by (simp add: P_def kf_def)
  have lP: "length K - Suc 0 = length P" by (simp add: P_def)
  have tk: "take (Suc i) K = take (Suc i) P" if "i < length P" for i using that by (simp add: Kp)
  have s': "MultiLevelMap_set this (P @ [kf, v]) h = (h', Inr r)" using s Kp by simp
  obtain h1 q where fl: "find_loop P P True a h = (h1, q)" by fastforce
  from s' fl obtain q' where q: "q = Inr q'" by (cases q) (auto simp: set_snoc a_def)
  have main: "(NR \<longrightarrow> (\<forall>i<length P. \<forall>m. lookup h a (take (Suc i) P) = Some m
                  \<longrightarrow> lookup h' a (take (Suc i) P) = Some m))
     \<and> (\<forall>i<length P. lookup h a (take (Suc i) P) = None
            \<longrightarrow> (\<exists>m. lookup h' a (take (Suc i) P) = Some m \<and> length h \<le> m \<and> m < length h'))
     \<and> length h' = length h + length (filter (\<lambda>i. lookup h a (take (Suc i) P) = None) [0..<length P])"
    using wf c [folded a_def] fl [unfolded q]
  proof (cases rule: find_loop_Inr_cases)
    case (resolved t)
    have h': "h' = store h t (Map_set (deref h t) kf v)"
      using s' fl q resolved by (simp add: set_snoc a_def)
    have same: "lookup h' a (take j P) = lookup h a (take j P)" if "j \<le> length P" and NR for j
    proof (rule lookup_after_write_key [where t = t and kf = kf])
      have nl: "\<not> leaves_through this P kf h" using \<open>NR\<close> by (simp add: NR_def P_def kf_def)
      show "P ! i \<noteq> kf" if "i < length P" "lookup h a (take i P) = Some t" for i
        using not_leaves [OF nl] resolved(3) that by (simp add: a_def)
      show "deref h' x = deref h x" if "x \<noteq> t" for x using that by (simp add: h' deref_store)
      show "Map_get (deref h' t) k = Map_get (deref h t) k" if "k \<noteq> kf" for k
        using that resolved(2) by (simp add: h' deref_store Map_get_set)
    qed (rule that)
    have some: "lookup h a (take j P) \<noteq> None" for j
      using lookup_take [OF resolved(3), of j] by auto
    have "filter (\<lambda>i. lookup h a (take (Suc i) P) = None) [0..<length P] = []"
      using some by (simp add: filter_empty_conv)
    then have "length h' = length h
        + length (filter (\<lambda>i. lookup h a (take (Suc i) P) = None) [0..<length P])"
      by (simp add: h' length_store)
    moreover have "\<forall>i<length P. lookup h a (take (Suc i) P) = None
            \<longrightarrow> (\<exists>m. lookup h' a (take (Suc i) P) = Some m \<and> length h \<le> m \<and> m < length h')"
      using some by blast
    moreover have "NR \<longrightarrow> (\<forall>i<length P. \<forall>m. lookup h a (take (Suc i) P) = Some m
                  \<longrightarrow> lookup h' a (take (Suc i) P) = Some m)"
      using same by simp
    ultimately show ?thesis by blast
  next
    case (created pre k post m t)
    have h': "h' = store h1 t (Map_set (deref h1 t) kf v)"
      using s' fl q created(1) by (simp add: set_snoc a_def)
    have fr: "deref h' x = deref h1 x" if "x \<noteq> t" for x using that by (simp add: h' deref_store)
    have len: "length h' = length h + Suc (length post)" using created(7) by (simp add: h' length_store)
    have lP': "length P = length pre + Suc (length post)" using created(2) by simp
    have old: "lookup h' a ks' = Some t'" if "lookup h a ks' = Some t'" for ks' t'
      using created(12) [OF fr that] .
    have low: "lookup h a (take (Suc i) P) \<noteq> None" if "i < length pre" for i
    proof -
      have "take (Suc i) P = take (Suc i) pre" using that created(2) by simp
      then show ?thesis using lookup_take [OF created(3), of "Suc i"] by auto
    qed
    have highP: "take (Suc i) P = pre @ k # take (i - length pre) post"
      if "length pre \<le> i" for i
      using that created(2) by (simp add: Suc_diff_le)
    have high: "lookup h a (take (Suc i) P) = None" if "length pre \<le> i" for i
    proof -
      have "take (Suc i) P = (pre @ [k]) @ take (i - length pre) post" using highP [OF that] by simp
      then show ?thesis using created(5) by (simp only: lookup_append) simp
    qed
    have new: "lookup h' a (take (Suc i) P) = Some (length h + (i - length pre))"
      if "length pre \<le> i" "i < length P" for i
    proof -
      have "i - length pre \<le> length post" using that lP' by simp
      from created(13) [OF fr this] show ?thesis using highP [OF that(1)] by simp
    qed
    have cnt: "length (filter (\<lambda>i. lookup h a (take (Suc i) P) = None) [0..<length P])
                 = length P - length pre"
      by (rule filter_upt_from) (use lP' low high in auto)
    have "\<exists>m. lookup h' a (take (Suc i) P) = Some m \<and> length h \<le> m \<and> m < length h'"
      if "i < length P" "lookup h a (take (Suc i) P) = None" for i
    proof -
      have "length pre \<le> i" using low that(2) by (meson not_le_imp_less)
      from new [OF this that(1)] show ?thesis using that(1) lP' len by simp
    qed
    then show ?thesis using old cnt lP' len by simp
  qed
  have m1: "lookup h' a (take (Suc i) P) = Some m"
    if NR "i < length P" "lookup h a (take (Suc i) P) = Some m" for i m
    using main that by blast
  have m2: "\<exists>m. lookup h' a (take (Suc i) P) = Some m \<and> length h \<le> m \<and> m < length h'"
    if "i < length P" "lookup h a (take (Suc i) P) = None" for i
    using main that by blast
  have m3: "length h' = length h
      + length (filter (\<lambda>i. lookup h a (take (Suc i) P) = None) [0..<length P])"
    using main by blast
  have ex: "lookup h' a (take (Suc i) P) \<noteq> None" if NR "i < length P" for i
    using m1 [OF that] m2 [OF that(2)] by (cases "lookup h a (take (Suc i) P)") auto
  have flt: "filter (\<lambda>i. lookup h a (take (Suc i) K) = None) [0..<length P]
           = filter (\<lambda>i. lookup h a (take (Suc i) P) = None) [0..<length P]"
    by (rule filter_cong) (simp_all add: tk)
  have 1: "\<forall>i<length K - 1. MultiLevelMap_isMap this (take (Suc i) K) h' = (h', Inr True)" if NR
    using ex [OF that] by (simp add: lP tk isMap_lookup a_def [symmetric])
  have 2: "\<forall>i<length K - 1. \<forall>m. resolves_to this (take (Suc i) K) h = Some m
            \<longrightarrow> resolves_to this (take (Suc i) K) h' = Some m" if NR
    using m1 [OF that] by (simp add: lP tk resolves_to_lookup a_def [symmetric])
  have 3: "\<forall>i<length K - 1. resolves_to this (take (Suc i) K) h = None
            \<longrightarrow> (\<exists>m. resolves_to this (take (Suc i) K) h' = Some m \<and> length h \<le> m \<and> m < length h')"
    using m2 by (simp add: lP tk resolves_to_lookup a_def [symmetric])
  have 4: "length h' = length h
          + length (filter (\<lambda>i. resolves_to this (take (Suc i) K) h = None) [0..<length K - 1])"
    using m3 flt by (simp add: lP resolves_to_lookup a_def [symmetric])
  from 1 2 3 4 show ?thesis unfolding NR_def by blast
qed

theorem set_creates_missing_prefixes_witness:
  "wf_heap nested_heap \<and> internalMap fresh < length nested_heap
   \<and> MultiLevelMap_set fresh ([str ''x'', str ''w'', str ''z''] @ [num 3]) nested_heap
       = ([[(str ''x'', MapRef 1)], [(str ''y'', num 1), (str ''w'', MapRef 2)], [(str ''z'', num 3)]],
          Inr (MapRef 2))
   \<and> \<not> leaves_through fresh (butlast [str ''x'', str ''w'', str ''z''])
         (last [str ''x'', str ''w'', str ''z'']) nested_heap
   \<and> MultiLevelMap_isMap fresh [str ''x'']
         [[(str ''x'', MapRef 1)], [(str ''y'', num 1), (str ''w'', MapRef 2)], [(str ''z'', num 3)]]
       = ([[(str ''x'', MapRef 1)], [(str ''y'', num 1), (str ''w'', MapRef 2)], [(str ''z'', num 3)]],
          Inr True)
   \<and> MultiLevelMap_isMap fresh [str ''x'', str ''w'']
         [[(str ''x'', MapRef 1)], [(str ''y'', num 1), (str ''w'', MapRef 2)], [(str ''z'', num 3)]]
       = ([[(str ''x'', MapRef 1)], [(str ''y'', num 1), (str ''w'', MapRef 2)], [(str ''z'', num 3)]],
          Inr True)
   \<and> wf_heap cyclic_heap \<and> internalMap fresh < length cyclic_heap
   \<and> MultiLevelMap_set fresh ([str ''a'', str ''b''] @ [num 5]) cyclic_heap
       = ([[(str ''a'', MapRef 0), (str ''b'', num 5)]], Inr (MapRef 0))
   \<and> path_revisits fresh (butlast [str ''a'', str ''b'']) cyclic_heap
   \<and> \<not> leaves_through fresh (butlast [str ''a'', str ''b'']) (last [str ''a'', str ''b''])
         cyclic_heap
   \<and> MultiLevelMap_isMap fresh [str ''a''] [[(str ''a'', MapRef 0), (str ''b'', num 5)]]
       = ([[(str ''a'', MapRef 0), (str ''b'', num 5)]], Inr True)"
proof -
  define h3 :: heap where
    "h3 = [[(str ''x'', MapRef 1)], [(str ''y'', num 1), (str ''w'', MapRef 2)], [(str ''z'', num 3)]]"
  define h4 :: heap where "h4 = [[(str ''a'', MapRef 0), (str ''b'', num 5)]]"
  have K: "2 \<le> length [str ''x'', str ''w'', str ''z'']" by simp
  have s: "MultiLevelMap_set fresh ([str ''x'', str ''w'', str ''z''] @ [num 3]) nested_heap
       = (h3, Inr (MapRef 2))"
    by (simp add: h3_def nested_heap_eq eval_defs)
  have nl: "\<not> leaves_through fresh (butlast [str ''x'', str ''w'', str ''z''])
         (last [str ''x'', str ''w'', str ''z'']) nested_heap"
    by (simp add: leaves_through_def resolves_to_lookup nested_heap_eq fresh_simps deref_def
        Map_get_def)
  from set_creates_missing_prefixes [OF wf_nested K s] nl
  have a: "\<forall>i<length [str ''x'', str ''w'', str ''z''] - 1.
     MultiLevelMap_isMap fresh (take (Suc i) [str ''x'', str ''w'', str ''z'']) h3 = (h3, Inr True)"
    by (elim conjE impE) assumption+
  from a [rule_format, of 0] a [rule_format, of 1]
  have r1: "MultiLevelMap_isMap fresh [str ''x''] h3 = (h3, Inr True)
      \<and> MultiLevelMap_isMap fresh [str ''x'', str ''w''] h3 = (h3, Inr True)"
    by simp
  have K': "2 \<le> length [str ''a'', str ''b'']" by simp
  have s': "MultiLevelMap_set fresh ([str ''a'', str ''b''] @ [num 5]) cyclic_heap
       = (h4, Inr (MapRef 0))"
    by (simp add: h4_def cyclic_heap_eq eval_defs)
  have pr: "path_revisits fresh (butlast [str ''a'', str ''b'']) cyclic_heap"
    by (simp add: path_revisits_def resolves_to_lookup cyclic_heap_eq fresh_simps deref_def
        Map_get_def)
  have nl': "\<not> leaves_through fresh (butlast [str ''a'', str ''b'']) (last [str ''a'', str ''b''])
         cyclic_heap"
    by (simp add: leaves_through_def resolves_to_lookup cyclic_heap_eq fresh_simps deref_def
        Map_get_def)
  from set_creates_missing_prefixes [OF wf_cyclic K' s'] nl'
  have b: "\<forall>i<length [str ''a'', str ''b''] - 1.
     MultiLevelMap_isMap fresh (take (Suc i) [str ''a'', str ''b'']) h4 = (h4, Inr True)"
    by (elim conjE impE) assumption+
  from b [rule_format, of 0]
  have r2: "MultiLevelMap_isMap fresh [str ''a''] h4 = (h4, Inr True)" by simp
  from r1 r2 show ?thesis using wf_nested wf_cyclic s s' nl nl' pr unfolding h3_def h4_def by simp
qed

section \<open>Scoped clear (C4)\<close>

text \<open>
  Claim C4 says that after \<^verbatim>\<open>set('a',1)\<close> and \<^verbatim>\<open>set('b','c',2)\<close> on a fresh container,
  \<^verbatim>\<open>clear('a')\<close> removes the entry \<^verbatim>\<open>'a'\<close>, so that \<^verbatim>\<open>has('a')\<close> is false afterwards. In
  the code \<^verbatim>\<open>clear('a')\<close> resolves the path \<^verbatim>\<open>['a']\<close> to a map and clears that map; \<^verbatim>\<open>'a'\<close>
  holds the number 1, the resolver returns \<^verbatim>\<open>null\<close>, and nothing is removed:
  \<^verbatim>\<open>has('a')\<close> is still true.
\<close>

theorem scoped_clear_counterexample:
  "snd (MultiLevelMap_has fresh [str ''a'']
          (fst (MultiLevelMap_clear fresh [str ''a''] scoped_heap))) = Inr True"
  by (simp add: scoped_heap_eq fresh_simps MultiLevelMap_clear_def MultiLevelMap_has_def
      s_FIND_CHILD_MAP_lookup deref_def Map_get_def Map_has_def)

text \<open>
  Claim C4, amended: on a fresh container, after \<^verbatim>\<open>set('a',1)\<close> and \<^verbatim>\<open>set('b','c',2)\<close>, the
  call \<^verbatim>\<open>clear('a')\<close> returns normally and changes nothing, because \<^verbatim>\<open>'a'\<close> holds a leaf
  and not a mapping: afterwards \<^verbatim>\<open>has('a')\<close> is still true and \<^verbatim>\<open>has('b','c')\<close> is still
  true.
\<close>

theorem scoped_clear_leaf:
  "MultiLevelMap_clear fresh [str ''a''] scoped_heap = (scoped_heap, Inr ())
   \<and> MultiLevelMap_has fresh [str ''a''] scoped_heap = (scoped_heap, Inr True)
   \<and> MultiLevelMap_has fresh [str ''b'', str ''c''] scoped_heap = (scoped_heap, Inr True)"
  by (simp add: scoped_heap_eq fresh_simps MultiLevelMap_clear_def MultiLevelMap_has_def
      s_FIND_CHILD_MAP_lookup deref_def Map_get_def Map_has_def)

section \<open>Which calls throw (C5)\<close>

text \<open>
  Claim C5: \<^verbatim>\<open>delete\<close>, \<^verbatim>\<open>get\<close> and \<^verbatim>\<open>has\<close> throw the argument error exactly when called with
  zero keys, and \<^verbatim>\<open>set\<close> throws it exactly when given fewer than two parameters. No other
  call throws: \<^verbatim>\<open>clear\<close>, \<^verbatim>\<open>isMap\<close>, \<^verbatim>\<open>keys\<close>, \<^verbatim>\<open>values\<close>, \<^verbatim>\<open>entries\<close>, \<^verbatim>\<open>size\<close>, and \<^verbatim>\<open>delete\<close>
  with at least one key always return normally, and when the path does not resolve they
  leave the heap as it is and return nothing, false, 0, or the empty iterator.
\<close>

theorem argument_errors_only:
  "(keys = [] \<longrightarrow>
       MultiLevelMap_delete this keys h = (h, Inl (ArgumentError ''delete - no keys specified.''))
     \<and> MultiLevelMap_get this keys h = (h, Inl (ArgumentError ''get - no keys specified.''))
     \<and> MultiLevelMap_has this keys h = (h, Inl (ArgumentError ''has - no keys specified.'')))
   \<and> (keys \<noteq> [] \<longrightarrow>
       (\<exists>r. snd (MultiLevelMap_delete this keys h) = Inr r)
     \<and> (\<exists>r. MultiLevelMap_get this keys h = (h, Inr r))
     \<and> (\<exists>r. MultiLevelMap_has this keys h = (h, Inr r)))
   \<and> (length keys < 2 \<longrightarrow> (\<exists>msg. MultiLevelMap_set this keys h = (h, Inl (ArgumentError msg))))
   \<and> (2 \<le> length keys \<longrightarrow> (\<forall>msg. snd (MultiLevelMap_set this keys h) \<noteq> Inl (ArgumentError msg)))
   \<and> snd (MultiLevelMap_clear this keys h) = Inr ()
   \<and> (\<exists>r. MultiLevelMap_isMap this keys h = (h, Inr r))
   \<and> (\<exists>r. MultiLevelMap_keys this keys h = (h, Inr r))
   \<and> (\<exists>r. MultiLevelMap_values this keys h = (h, Inr r))
   \<and> (\<exists>r. MultiLevelMap_entries this keys h = (h, Inr r))
   \<and> (\<exists>r. MultiLevelMap_size this keys h = (h, Inr r))
   \<and> (resolves_to this keys h = None \<longrightarrow>
       MultiLevelMap_clear this keys h = (h, Inr ())
     \<and> MultiLevelMap_isMap this keys h = (h, Inr False)
     \<and> MultiLevelMap_size this keys h = (h, Inr 0)
     \<and> MultiLevelMap_keys this keys h = (h, Inr s_EMPTY_ITERATOR)
     \<and> MultiLevelMap_values this keys h = (h, Inr s_EMPTY_ITERATOR)
     \<and> MultiLevelMap_entries this keys h = (h, Inr s_EMPTY_ITERATOR))
   \<and> (keys \<noteq> [] \<and> resolves_to this (butlast keys) h = None \<longrightarrow>
       MultiLevelMap_delete this keys h = (h, Inr False))"
proof -
  have zero: "keys = [] \<longrightarrow>
       MultiLevelMap_delete this keys h = (h, Inl (ArgumentError ''delete - no keys specified.''))
     \<and> MultiLevelMap_get this keys h = (h, Inl (ArgumentError ''get - no keys specified.''))
     \<and> MultiLevelMap_has this keys h = (h, Inl (ArgumentError ''has - no keys specified.''))"
    by (simp add: MultiLevelMap_delete_def MultiLevelMap_get_def MultiLevelMap_has_def)
  have some: "keys \<noteq> [] \<longrightarrow>
       (\<exists>r. snd (MultiLevelMap_delete this keys h) = Inr r)
     \<and> (\<exists>r. MultiLevelMap_get this keys h = (h, Inr r))
     \<and> (\<exists>r. MultiLevelMap_has this keys h = (h, Inr r))"
  proof
    assume "keys \<noteq> []"
    then obtain P kf where k: "keys = P @ [kf]" by (cases keys rule: rev_cases) auto
    show "(\<exists>r. snd (MultiLevelMap_delete this keys h) = Inr r)
     \<and> (\<exists>r. MultiLevelMap_get this keys h = (h, Inr r))
     \<and> (\<exists>r. MultiLevelMap_has this keys h = (h, Inr r))"
      unfolding k by (auto simp: delete_snoc get_snoc has_snoc split: option.splits)
  qed
  have set1: "length keys < 2 \<longrightarrow> (\<exists>msg. MultiLevelMap_set this keys h = (h, Inl (ArgumentError msg)))"
    using set_short by blast
  have set2: "2 \<le> length keys \<longrightarrow> (\<forall>msg. snd (MultiLevelMap_set this keys h) \<noteq> Inl (ArgumentError msg))"
  proof (intro impI allI notI)
    fix msg
    assume l: "2 \<le> length keys"
      and e: "snd (MultiLevelMap_set this keys h) = Inl (ArgumentError msg)"
    from set_error [OF l e] obtain k where
      "conflict_error k (take (length keys - 2) keys) = ArgumentError msg" by auto
    then show False by (simp add: conflict_error_not_argument)
  qed
  have never: "snd (MultiLevelMap_clear this keys h) = Inr ()
   \<and> (\<exists>r. MultiLevelMap_isMap this keys h = (h, Inr r))
   \<and> (\<exists>r. MultiLevelMap_keys this keys h = (h, Inr r))
   \<and> (\<exists>r. MultiLevelMap_values this keys h = (h, Inr r))
   \<and> (\<exists>r. MultiLevelMap_entries this keys h = (h, Inr r))
   \<and> (\<exists>r. MultiLevelMap_size this keys h = (h, Inr r))"
    by (simp add: clear_lookup isMap_lookup keys_lookup values_lookup entries_lookup size_lookup
        split: option.splits)
  have unres: "resolves_to this keys h = None \<longrightarrow>
       MultiLevelMap_clear this keys h = (h, Inr ())
     \<and> MultiLevelMap_isMap this keys h = (h, Inr False)
     \<and> MultiLevelMap_size this keys h = (h, Inr 0)
     \<and> MultiLevelMap_keys this keys h = (h, Inr s_EMPTY_ITERATOR)
     \<and> MultiLevelMap_values this keys h = (h, Inr s_EMPTY_ITERATOR)
     \<and> MultiLevelMap_entries this keys h = (h, Inr s_EMPTY_ITERATOR)"
    by (simp add: resolves_to_lookup clear_lookup isMap_lookup keys_lookup values_lookup
        entries_lookup size_lookup s_EMPTY_ITERATOR_def)
  have del: "keys \<noteq> [] \<and> resolves_to this (butlast keys) h = None \<longrightarrow>
       MultiLevelMap_delete this keys h = (h, Inr False)"
  proof
    assume a: "keys \<noteq> [] \<and> resolves_to this (butlast keys) h = None"
    then obtain P kf where k: "keys = P @ [kf]" by (cases keys rule: rev_cases) auto
    show "MultiLevelMap_delete this keys h = (h, Inr False)"
      using a unfolding k by (simp add: delete_snoc resolves_to_lookup)
  qed
  from zero some set1 set2 never unres del show ?thesis by blast
qed

theorem argument_errors_only_witness:
  "MultiLevelMap_delete fresh [] fresh_heap
       = (fresh_heap, Inl (ArgumentError ''delete - no keys specified.''))
   \<and> MultiLevelMap_get fresh [] fresh_heap
       = (fresh_heap, Inl (ArgumentError ''get - no keys specified.''))
   \<and> MultiLevelMap_has fresh [] fresh_heap
       = (fresh_heap, Inl (ArgumentError ''has - no keys specified.''))
   \<and> resolves_to fresh [str ''nope''] fresh_heap = None
   \<and> MultiLevelMap_clear fresh [str ''nope''] fresh_heap = (fresh_heap, Inr ())
   \<and> MultiLevelMap_isMap fresh [str ''nope''] fresh_heap = (fresh_heap, Inr False)
   \<and> MultiLevelMap_size fresh [str ''nope''] fresh_heap = (fresh_heap, Inr 0)
   \<and> MultiLevelMap_keys fresh [str ''nope''] fresh_heap = (fresh_heap, Inr s_EMPTY_ITERATOR)
   \<and> MultiLevelMap_values fresh [str ''nope''] fresh_heap = (fresh_heap, Inr s_EMPTY_ITERATOR)
   \<and> MultiLevelMap_entries fresh [str ''nope''] fresh_heap = (fresh_heap, Inr s_EMPTY_ITERATOR)"
proof -
  have r: "resolves_to fresh [str ''nope''] fresh_heap = None"
    by (simp add: resolves_to_lookup fresh_simps deref_def Map_get_def)
  from argument_errors_only [of "[]" fresh fresh_heap]
  have z: "MultiLevelMap_delete fresh [] fresh_heap
       = (fresh_heap, Inl (ArgumentError ''delete - no keys specified.''))
     \<and> MultiLevelMap_get fresh [] fresh_heap
       = (fresh_heap, Inl (ArgumentError ''get - no keys specified.''))
     \<and> MultiLevelMap_has fresh [] fresh_heap
       = (fresh_heap, Inl (ArgumentError ''has - no keys specified.''))"
    by blast
  from argument_errors_only [of "[str ''nope'']" fresh fresh_heap] r
  have "MultiLevelMap_clear fresh [str ''nope''] fresh_heap = (fresh_heap, Inr ())
   \<and> MultiLevelMap_isMap fresh [str ''nope''] fresh_heap = (fresh_heap, Inr False)
   \<and> MultiLevelMap_size fresh [str ''nope''] fresh_heap = (fresh_heap, Inr 0)
   \<and> MultiLevelMap_keys fresh [str ''nope''] fresh_heap = (fresh_heap, Inr s_EMPTY_ITERATOR)
   \<and> MultiLevelMap_values fresh [str ''nope''] fresh_heap = (fresh_heap, Inr s_EMPTY_ITERATOR)
   \<and> MultiLevelMap_entries fresh [str ''nope''] fresh_heap = (fresh_heap, Inr s_EMPTY_ITERATOR)"
    by blast
  with z r show ?thesis by blast
qed

section \<open>Delete keeps the intermediate mappings (C6)\<close>

text \<open>
  Claim C6 says that after a successful multi-key \<^verbatim>\<open>delete\<close> the final key is gone and the
  intermediate mapping persists, \<^verbatim>\<open>isMap\<close> of the path without its last key staying true.
  When the nested map under \<^verbatim>\<open>'k'\<close> holds itself under \<^verbatim>\<open>'self'\<close>, the call
  \<^verbatim>\<open>delete('k', 'self', 'self')\<close> returns true and removes the entry that the path
  \<^verbatim>\<open>['k', 'self']\<close> went through: \<^verbatim>\<open>isMap('k', 'self')\<close> is false afterwards.
\<close>

theorem delete_keeps_intermediate_counterexample:
  "snd (MultiLevelMap_delete fresh [str ''k'', str ''self'', str ''self''] selfref_heap) = Inr True
   \<and> snd (MultiLevelMap_isMap fresh [str ''k'', str ''self''] selfref_heap) = Inr True
   \<and> snd (MultiLevelMap_isMap fresh [str ''k'', str ''self'']
            (fst (MultiLevelMap_delete fresh [str ''k'', str ''self'', str ''self''] selfref_heap)))
       = Inr False"
  by (simp add: selfref_heap_eq eval_defs)

text \<open>
  Claim C6, amended: after a multi-key \<^verbatim>\<open>delete(...K)\<close> that returns true (for example
  \<^verbatim>\<open>delete('x','y')\<close> following \<^verbatim>\<open>set('x','y',1)\<close>) the final key is removed, so that
  \<^verbatim>\<open>has(...K)\<close> is false, and the only change is the removal of that key from the mapping that
  \<^verbatim>\<open>K\<close> without its last key resolves to. Provided that before the call the path did not
  leave that mapping through the deleted key (no proper prefix of \<^verbatim>\<open>K\<close> without its last key
  resolves to that same mapping and is followed in \<^verbatim>\<open>K\<close> by a key equal to the last key of
  \<^verbatim>\<open>K\<close>), the intermediate mappings persist, also when emptied: every proper prefix of
  \<^verbatim>\<open>K\<close> resolves as before and \<^verbatim>\<open>isMap\<close> of \<^verbatim>\<open>K\<close> without its last key remains true.
\<close>

theorem delete_keeps_intermediate:
  assumes K: "2 \<le> length K"
    and d: "MultiLevelMap_delete this K h = (h', Inr True)"
  shows "MultiLevelMap_has this K h' = (h', Inr False)
       \<and> (\<exists>t. resolves_to this (butlast K) h = Some t
              \<and> h' = store h t (fst (Map_delete (deref h t) (last K)))
              \<and> (\<forall>x. x \<noteq> t \<longrightarrow> deref h' x = deref h x))
       \<and> (\<not> leaves_through this (butlast K) (last K) h \<longrightarrow>
              MultiLevelMap_isMap this (butlast K) h' = (h', Inr True)
            \<and> (\<forall>i<length K. resolves_to this (take i K) h' = resolves_to this (take i K) h))"
proof -
  define P where "P = butlast K"
  define kf where "kf = last K"
  define a where "a = internalMap this"
  have K0: "K \<noteq> []" using K by auto
  have Kp: "K = P @ [kf]" using K0 by (simp add: P_def kf_def)
  have tk: "take i K = take i P" if "i < length K" for i using that by (simp add: Kp)
  from d obtain t where t: "lookup h a P = Some t" and hk: "Map_has (deref h t) kf"
    and h': "h' = store h t (AList.delete kf (deref h t))"
    by (auto simp: Kp delete_snoc a_def split: option.splits)
  have "deref h t \<noteq> []" using hk by (auto simp: Map_has_def)
  then have tl: "t < length h" by (auto simp: deref_def split: if_splits)
  have dt: "deref h' t = AList.delete kf (deref h t)" using tl by (simp add: h' deref_store)
  have fr: "deref h' x = deref h x" if "x \<noteq> t" for x using that by (simp add: h' deref_store)
  have shrink: "\<forall>x k b. Map_get (deref h' x) k = MapRef b \<longrightarrow> Map_get (deref h x) k = MapRef b"
  proof (intro allI impI)
    fix x k b assume g: "Map_get (deref h' x) k = MapRef b"
    show "Map_get (deref h x) k = MapRef b"
    proof (cases "x = t")
      case True
      then show ?thesis using g dt by (simp add: Map_get_delete split: if_splits)
    next
      case False
      then show ?thesis using g fr by simp
    qed
  qed
  have "\<not> Map_has (deref h' t) kf" by (simp add: dt Map_has_def delete_conv')
  moreover have "t' = t" if "lookup h' a P = Some t'" for t'
    using lookup_extend [OF shrink that] t by simp
  ultimately have 1: "MultiLevelMap_has this K h' = (h', Inr False)"
    by (auto simp: Kp has_snoc a_def [symmetric] split: option.splits)
  have 2: "resolves_to this (butlast K) h = Some t
              \<and> h' = store h t (fst (Map_delete (deref h t) (last K)))
              \<and> (\<forall>x. x \<noteq> t \<longrightarrow> deref h' x = deref h x)"
    using t h' fr
    by (simp add: resolves_to_lookup P_def [symmetric] a_def [symmetric] kf_def Map_delete_def)
  have 3: "MultiLevelMap_isMap this (butlast K) h' = (h', Inr True)
            \<and> (\<forall>i<length K. resolves_to this (take i K) h' = resolves_to this (take i K) h)"
    if nl: "\<not> leaves_through this (butlast K) (last K) h"
  proof -
    have same: "lookup h' a (take j P) = lookup h a (take j P)" if "j \<le> length P" for j
    proof (rule lookup_after_write_key [where t = t and kf = kf])
      show "P ! i \<noteq> kf" if "i < length P" "lookup h a (take i P) = Some t" for i
        using not_leaves [OF nl [folded P_def kf_def]] t that by (simp add: a_def)
      show "deref h' x = deref h x" if "x \<noteq> t" for x using that by (rule fr)
      show "Map_get (deref h' t) k = Map_get (deref h t) k" if "k \<noteq> kf" for k
        using that by (simp add: dt Map_get_delete)
    qed (rule that)
    from same [of "length P"] have t': "lookup h' a P = Some t" using t by simp
    have "MultiLevelMap_isMap this (butlast K) h' = (h', Inr True)"
      using t' by (simp add: isMap_lookup P_def [symmetric] a_def [symmetric])
    moreover have "\<forall>i<length K. resolves_to this (take i K) h' = resolves_to this (take i K) h"
    proof (intro allI impI)
      fix i assume i: "i < length K"
      then have "i \<le> length P" by (simp add: Kp)
      from same [OF this] show "resolves_to this (take i K) h' = resolves_to this (take i K) h"
        by (simp add: tk [OF i] resolves_to_lookup a_def [symmetric])
    qed
    ultimately show ?thesis by simp
  qed
  from 1 2 3 show ?thesis by blast
qed

theorem delete_keeps_intermediate_witness:
  "2 \<le> length [str ''x'', str ''y'']
   \<and> MultiLevelMap_delete fresh [str ''x'', str ''y''] nested_heap
       = ([[(str ''x'', MapRef 1)], []], Inr True)
   \<and> \<not> leaves_through fresh (butlast [str ''x'', str ''y'']) (last [str ''x'', str ''y''])
         nested_heap
   \<and> MultiLevelMap_has fresh [str ''x'', str ''y''] [[(str ''x'', MapRef 1)], []]
       = ([[(str ''x'', MapRef 1)], []], Inr False)
   \<and> MultiLevelMap_isMap fresh [str ''x''] [[(str ''x'', MapRef 1)], []]
       = ([[(str ''x'', MapRef 1)], []], Inr True)"
proof -
  have K: "2 \<le> length [str ''x'', str ''y'']" by simp
  have d: "MultiLevelMap_delete fresh [str ''x'', str ''y''] nested_heap
       = ([[(str ''x'', MapRef 1)], []], Inr True)"
    by (simp add: nested_heap_eq eval_defs)
  have nl: "\<not> leaves_through fresh (butlast [str ''x'', str ''y'']) (last [str ''x'', str ''y''])
         nested_heap"
    by (simp add: leaves_through_def resolves_to_lookup nested_heap_eq fresh_simps deref_def
        Map_get_def)
  from delete_keeps_intermediate [OF K d] nl
  have "MultiLevelMap_has fresh [str ''x'', str ''y''] [[(str ''x'', MapRef 1)], []]
       = ([[(str ''x'', MapRef 1)], []], Inr False)
     \<and> MultiLevelMap_isMap fresh (butlast [str ''x'', str ''y'']) [[(str ''x'', MapRef 1)], []]
       = ([[(str ''x'', MapRef 1)], []], Inr True)"
    by (elim conjE impE) (assumption, simp)
  then show ?thesis using d nl by simp
qed

section \<open>What the conflict error carries (C7)\<close>

text \<open>
  Claim C7 says that every conflict error raised by \<^verbatim>\<open>set\<close> carries the offending key and
  the full attempted key path, all keys the caller passed. The message prints the array
  that the resolver was given, which is \<^verbatim>\<open>params.slice(0, keysLength - 2)\<close>: the last key
  of the caller is not in it. After \<^verbatim>\<open>set('key1', 1)\<close>, the call
  \<^verbatim>\<open>set('key1', 'key2', 'key3', 3)\<close> reports the keys \<^verbatim>\<open>["key1","key2"]\<close>.
\<close>

theorem conflict_error_keys_counterexample:
  "snd (MultiLevelMap_set fresh [str ''key1'', str ''key2'', str ''key3'', num 3] leaf_heap)
     = Inl (ConflictError (str ''key1'') [str ''key1'', str ''key2''])
   \<and> snd (MultiLevelMap_set fresh [str ''key1'', str ''key2'', str ''key3'', num 3] leaf_heap)
     \<noteq> Inl (ConflictError (str ''key1'') [str ''key1'', str ''key2'', str ''key3''])"
  by (simp add: leaf_heap_eq eval_defs)

text \<open>
  Claim C7, amended: every conflict error raised by \<^verbatim>\<open>set\<close> carries the offending key and
  the key path that was being resolved, which is all keys the caller passed except the last
  one (the key under which the value was to be stored). The offending key is a member of
  that path; the keys before it resolve to a map in which the offending key is present with
  a value that is not a map.
\<close>

theorem conflict_error_payload:
  assumes "wf_heap h" and "internalMap this < length h"
    and "MultiLevelMap_set this params h = (h', Inl (ConflictError key keys))"
  shows "keys = take (length params - 2) params
     \<and> (\<exists>pre post m p. keys = pre @ key # post \<and> resolves_to this pre h = Some m
           \<and> Map_has (deref h m) key \<and> Map_get (deref h m) key = Prim p)"
proof -
  have len: "2 \<le> length params" using assms(3) by (rule set_conflict_length)
  from params_split [OF len] obtain P kf v where
    p: "params = P @ [kf, v]" and P: "P = take (length params - 2) params" by blast
  obtain h1 r where fl: "find_loop P P True (internalMap this) h = (h1, r)" by fastforce
  with assms(3) p have r: "r = Inl (ConflictError key keys)"
    by (auto simp: set_snoc split: sum.splits option.splits)
  from find_loop_Inl [OF assms(1,2) fl [unfolded r]] obtain pre k post m p' where
    d: "P = pre @ k # post" "lookup h (internalMap this) pre = Some m"
       "Map_get (deref h m) k = Prim p'" "Map_has (deref h m) k"
       "ConflictError key keys = conflict_error k P"
    by blast
  from d(5) have kk: "k = key" "P = keys" using conflict_error_eq [of k P key keys] by simp_all
  have "keys = pre @ key # post \<and> resolves_to this pre h = Some m
           \<and> Map_has (deref h m) key \<and> Map_get (deref h m) key = Prim p'"
    using d(1-4) kk by (simp add: resolves_to_lookup)
  then have "\<exists>pre post m p. keys = pre @ key # post \<and> resolves_to this pre h = Some m
           \<and> Map_has (deref h m) key \<and> Map_get (deref h m) key = Prim p"
    by blast
  then show ?thesis using P kk by simp
qed

theorem conflict_error_payload_witness:
  "wf_heap leaf_heap \<and> internalMap fresh < length leaf_heap
   \<and> MultiLevelMap_set fresh [str ''key1'', str ''key2'', str ''key3'', num 3] leaf_heap
       = (leaf_heap, Inl (ConflictError (str ''key1'') [str ''key1'', str ''key2'']))
   \<and> [str ''key1'', str ''key2'']
       = take (length [str ''key1'', str ''key2'', str ''key3'', num 3] - 2)
           [str ''key1'', str ''key2'', str ''key3'', num 3]"
proof -
  have s: "MultiLevelMap_set fresh [str ''key1'', str ''key2'', str ''key3'', num 3] leaf_heap
       = (leaf_heap, Inl (ConflictError (str ''key1'') [str ''key1'', str ''key2'']))"
    by (simp add: leaf_heap_eq eval_defs)
  from conflict_error_payload [OF wf_leaf s] show ?thesis using wf_leaf s by blast
qed

section \<open>What \<^verbatim>\<open>set\<close> returns (C8)\<close>



section \<open>A stored map is a nested level (C9)\<close>

text \<open>
  Claim C9: if the value stored by \<^verbatim>\<open>set(k, m)\<close> is itself a \<^verbatim>\<open>Map\<close>, the container treats
  it as a nested level and not as a leaf: \<^verbatim>\<open>isMap(k)\<close> is true, and a later
  \<^verbatim>\<open>set(k, k2, v)\<close> descends into \<^verbatim>\<open>m\<close>, writes \<^verbatim>\<open>k2\<close> there and returns \<^verbatim>\<open>m\<close>, without a
  conflict error.
\<close>

theorem stored_map_is_level:
  assumes c: "internalMap this < length h" and m: "m < length h"
    and s: "MultiLevelMap_set this [k, MapRef m] h = (h1, r)"
  shows "MultiLevelMap_isMap this [k] h1 = (h1, Inr True)
       \<and> MultiLevelMap_set this [k, k2, v] h1
           = (store h1 m (Map_set (deref h1 m) k2 v), Inr (MapRef m))
       \<and> Map_get (deref (store h1 m (Map_set (deref h1 m) k2 v)) m) k2 = v"
proof -
  from s have h1: "h1 = store h (internalMap this) (Map_set (deref h (internalMap this)) k (MapRef m))"
    by (simp add: MultiLevelMap_set_def)
  have d: "deref h1 (internalMap this) = Map_set (deref h (internalMap this)) k (MapRef m)"
    using c by (simp add: h1 deref_store)
  have l: "m < length h1" using m by (simp add: h1 length_store)
  have "MultiLevelMap_isMap this [k] h1 = (h1, Inr True)"
    by (simp add: MultiLevelMap_isMap_def s_FIND_CHILD_MAP_def d Map_get_set)
  moreover have "MultiLevelMap_set this [k, k2, v] h1
           = (store h1 m (Map_set (deref h1 m) k2 v), Inr (MapRef m))"
    by (simp add: MultiLevelMap_set_def s_FIND_CHILD_MAP_def d Map_get_set)
  moreover have "Map_get (deref (store h1 m (Map_set (deref h1 m) k2 v)) m) k2 = v"
    using l by (simp add: deref_store Map_get_set)
  ultimately show ?thesis by simp
qed

theorem stored_map_is_level_witness:
  "internalMap fresh < length user_heap \<and> 1 < length user_heap
   \<and> MultiLevelMap_set fresh [str ''k'', MapRef 1] user_heap
       = ([[(str ''k'', MapRef 1)], []], Inr (MapRef 0))
   \<and> MultiLevelMap_isMap fresh [str ''k''] [[(str ''k'', MapRef 1)], []]
       = ([[(str ''k'', MapRef 1)], []], Inr True)
   \<and> MultiLevelMap_set fresh [str ''k'', str ''k2'', num 5] [[(str ''k'', MapRef 1)], []]
       = ([[(str ''k'', MapRef 1)], [(str ''k2'', num 5)]], Inr (MapRef 1))"
proof -
  have c: "internalMap fresh < length user_heap" and m: "1 < length user_heap"
    by (simp_all add: user_heap_eq fresh_simps)
  have s: "MultiLevelMap_set fresh [str ''k'', MapRef 1] user_heap
       = ([[(str ''k'', MapRef 1)], []], Inr (MapRef 0))"
    by (simp add: user_heap_eq fresh_simps MultiLevelMap_set_def deref_def store_def Map_set_def)
  from stored_map_is_level [OF c m s, of "str ''k2''" "num 5"]
  show ?thesis using c m s by (simp add: deref_def store_def Map_set_def)
qed

section \<open>Clearing a nested mapping (C10)\<close>

text \<open>
  Claim C10 says that when \<^verbatim>\<open>clear(...P)\<close> is called with a non-empty path that resolves to a
  nested mapping, that mapping stays present at its key: \<^verbatim>\<open>isMap(...P)\<close> remains true. When the
  nested map under \<^verbatim>\<open>'k'\<close> holds itself under \<^verbatim>\<open>'self'\<close>, the path \<^verbatim>\<open>['k', 'self']\<close> resolves to
  that map, \<^verbatim>\<open>clear('k', 'self')\<close> empties it, and with its contents goes the entry \<^verbatim>\<open>'self'\<close>
  that the path went through: \<^verbatim>\<open>isMap('k', 'self')\<close> is false afterwards.
\<close>

theorem clear_nested_counterexample:
  "resolves_to fresh [str ''k'', str ''self''] selfref_heap = Some 1
   \<and> snd (MultiLevelMap_isMap fresh [str ''k'', str ''self''] selfref_heap) = Inr True
   \<and> snd (MultiLevelMap_isMap fresh [str ''k'', str ''self'']
            (fst (MultiLevelMap_clear fresh [str ''k'', str ''self''] selfref_heap))) = Inr False"
  by (simp add: selfref_heap_eq resolves_to_def eval_defs)

text \<open>
  Claim C10, amended: when \<^verbatim>\<open>clear(...P)\<close> is called with a non-empty key path \<^verbatim>\<open>P\<close> that
  resolves to a nested mapping, only that mapping's contents are removed: every other mapping
  keeps all its entries, and \<^verbatim>\<open>size(...P)\<close> becomes 0. Provided that no proper prefix of
  \<^verbatim>\<open>P\<close> resolves to that same mapping, the mapping itself stays present at its key:
  \<^verbatim>\<open>isMap(...P)\<close> remains true, \<^verbatim>\<open>P\<close> resolves to the same mapping, and every proper prefix
  of \<^verbatim>\<open>P\<close> resolves as before.
\<close>

theorem clear_nested_only:
  assumes P: "P \<noteq> []"
    and r: "resolves_to this P h = Some t"
  shows "MultiLevelMap_clear this P h = (store h t [], Inr ())
       \<and> (\<forall>x. x \<noteq> t \<longrightarrow> deref (store h t []) x = deref h x)
       \<and> MultiLevelMap_size this P (store h t []) = (store h t [], Inr 0)
       \<and> (\<not> path_revisits this P h \<longrightarrow>
              MultiLevelMap_isMap this P (store h t []) = (store h t [], Inr True)
            \<and> resolves_to this P (store h t []) = Some t
            \<and> (\<forall>i<length P. resolves_to this (take i P) (store h t [])
                                = resolves_to this (take i P) h))"
proof -
  define a where "a = internalMap this"
  define h' where "h' = store h t []"
  have t: "lookup h a P = Some t" using r by (simp add: resolves_to_lookup a_def)
  have fr: "deref h' x = deref h x" if "x \<noteq> t" for x using that by (simp add: h'_def deref_store)
  have dt: "deref h' t = []" by (simp add: h'_def deref_def store_def)
  have shrink: "\<forall>x k b. Map_get (deref h' x) k = MapRef b \<longrightarrow> Map_get (deref h x) k = MapRef b"
  proof (intro allI impI)
    fix x k b assume g: "Map_get (deref h' x) k = MapRef b"
    show "Map_get (deref h x) k = MapRef b"
    proof (cases "x = t")
      case True
      then show ?thesis using g dt by (simp add: Map_get_Nil)
    next
      case False
      then show ?thesis using g fr by simp
    qed
  qed
  have 1: "MultiLevelMap_clear this P h = (h', Inr ())"
    using t by (simp add: clear_lookup a_def [symmetric] h'_def)
  have "t' = t" if "lookup h' a P = Some t'" for t'
    using lookup_extend [OF shrink that] t by simp
  then have 2: "MultiLevelMap_size this P h' = (h', Inr 0)"
    using dt by (auto simp: size_lookup a_def [symmetric] split: option.splits)
  have 3: "MultiLevelMap_isMap this P h' = (h', Inr True)
            \<and> resolves_to this P h' = Some t
            \<and> (\<forall>i<length P. resolves_to this (take i P) h' = resolves_to this (take i P) h)"
    if nr: "\<not> path_revisits this P h"
  proof -
    have same: "lookup h' a (take j P) = lookup h a (take j P)" if "j \<le> length P" for j
    proof (rule lookup_after_write [where t = t])
      show "lookup h a (take i P) \<noteq> Some t" if "i < length P" for i
        using not_revisits [OF nr] t that by (simp add: a_def)
    qed (use fr that in auto)
    from same [of "length P"] have t': "lookup h' a P = Some t" using t by simp
    then show ?thesis using same
      by (simp add: isMap_lookup resolves_to_lookup a_def [symmetric])
  qed
  from 1 2 3 fr show ?thesis unfolding h'_def by blast
qed

theorem clear_nested_only_witness:
  "[str ''x''] \<noteq> [] \<and> resolves_to fresh [str ''x''] nested_heap = Some 1
   \<and> \<not> path_revisits fresh [str ''x''] nested_heap
   \<and> MultiLevelMap_clear fresh [str ''x''] nested_heap = ([[(str ''x'', MapRef 1)], []], Inr ())
   \<and> MultiLevelMap_isMap fresh [str ''x''] [[(str ''x'', MapRef 1)], []]
       = ([[(str ''x'', MapRef 1)], []], Inr True)
   \<and> MultiLevelMap_size fresh [str ''x''] [[(str ''x'', MapRef 1)], []]
       = ([[(str ''x'', MapRef 1)], []], Inr 0)"
proof -
  have P: "[str ''x''] \<noteq> []" by simp
  have r: "resolves_to fresh [str ''x''] nested_heap = Some 1"
    by (simp add: resolves_to_lookup nested_heap_eq fresh_simps deref_def Map_get_def)
  have nr: "\<not> path_revisits fresh [str ''x''] nested_heap"
    by (simp add: path_revisits_def resolves_to_lookup nested_heap_eq fresh_simps deref_def
        Map_get_def)
  have st: "store nested_heap 1 [] = [[(str ''x'', MapRef 1)], []]"
    by (simp add: nested_heap_eq store_def)
  from clear_nested_only [OF P r] nr show ?thesis using r st by simp
qed

end
